theory Spec2Isabelle
  imports
    Complex_Main
    "HOL-Library.Word"
    "HOL-Library.Sublist"
    "HOL-Library.Multiset"
    "HOL-Library.Char_ord"
    "HOL-Library.List_Lexorder"
    "HOL-Library.Product_Lexorder"
begin

unbundle bit_operations_syntax

section \<open>Data model (types.go)\<close>

type_synonym byte = "8 word"

text \<open>
  \<^verbatim>\<open>type CANFrame struct { Timestamp string; ID string; IsExtended bool; Direction string;
  Bus int; Length int; Data []byte }\<close>
\<close>

record CANFrame =
  Timestamp :: string
  ID :: string
  IsExtended :: bool
  Direction :: string
  Bus :: int
  Length :: int
  Data :: "byte list"

text \<open>
  The values of Go's \<open>float64\<close> as far as the program tells them apart: not-a-number, the
  two infinities and the finite numbers. \<open>strconv.ParseFloat\<close> returns each of them without
  an error (for the texts \<open>NaN\<close>, \<open>-Inf\<close>, \<open>+Inf\<close> and the decimal numbers), so each can be
  the timestamp of a frame. A finite value is given by the real number it denotes; the
  two zeros, which \<open>==\<close> and \<open><\<close> do not tell apart, are one value.
\<close>

datatype float64 = NaN | NegInf | Num real | PosInf



text \<open>
  \<^verbatim>\<open>type FrameInfo struct { Frame *CANFrame; TimestampFloat float64; Header byte;
  FrameType string; IsHeartbeat bool; IsCBOR bool; SequenceNum int }\<close>
\<close>

record FrameInfo =
  Frame :: CANFrame
  TimestampFloat :: float64
  Header :: byte
  FrameType :: string
  IsHeartbeat :: bool
  IsCBOR :: bool
  SequenceNum :: int

section \<open>Heartbeat detection (analyzer.go)\<close>

text \<open>Lines printed by \<open>analyzeRawFrame\<close> when \<open>verbose\<close> is set.\<close>

datatype raw_note =
    Telemetry byte byte byte byte
  | HeartbeatNote
  | StatusByte byte

text \<open>
  The loop of \<open>checkIfHeartbeat\<close>:
  \<^verbatim>\<open>for _, b := range frame.Data { if b != 0 { return false } }; return true\<close>
\<close>

fun noNonZero :: "byte list \<Rightarrow> bool" where
  "noNonZero [] = True"
| "noNonZero (b # bs) = (if b \<noteq> 0 then False else noNonZero bs)"

definition checkIfHeartbeat :: "CANFrame \<Rightarrow> bool" where
  "checkIfHeartbeat frame =
     (if \<not> prefix ''01111'' (ID frame) then False else noNonZero (Data frame))"

text \<open>
  The loop of \<open>analyzeRawFrame\<close>, which carries the flag \<open>allZero\<close> and leaves at the
  first non-zero byte:
  \<^verbatim>\<open>allZero := true; for _, b := range frame.Data { if b != 0 { allZero = false; break } }\<close>
\<close>

fun allZero_loop :: "bool \<Rightarrow> byte list \<Rightarrow> bool" where
  "allZero_loop allZero [] = allZero"
| "allZero_loop allZero (b # bs) = (if b \<noteq> 0 then False else allZero_loop allZero bs)"

text \<open>
  \<open>analyzeRawFrame\<close> is a first-match \<open>switch\<close>; it returns the printed notes and the
  flag \<open>isHeartbeat\<close>.
\<close>

definition analyzeRawFrame :: "CANFrame \<Rightarrow> bool \<Rightarrow> raw_note list \<times> bool" where
  "analyzeRawFrame frame verbose =
     (if ID frame = ''14609460'' then
        (if verbose \<and> length (Data frame) \<ge> 4
         then [Telemetry (Data frame ! 0) (Data frame ! 1) (Data frame ! 2) (Data frame ! 3)]
         else [], False)
      else if prefix ''01111'' (ID frame) then
        (if allZero_loop True (Data frame)
         then (if verbose then [HeartbeatNote] else [], True)
         else ([], False))
      else if ID frame = ''18209820'' then
        (if verbose \<and> length (Data frame) \<ge> 1 then [StatusByte (Data frame ! 0)] else [], False)
      else ([], False))"

section \<open>Frame classification (main and processFile)\<close>

definition isStartFrame :: "byte \<Rightarrow> bool" where
  "isStartFrame header = (header AND 0xF0 = 0xA0)"

definition isContinuation :: "byte \<Rightarrow> bool" where
  "isContinuation header = (header AND 0xF0 = 0x10)"

text \<open>
  The classification block shared by \<open>main\<close> and \<open>processFile\<close>: it computes
  \<open>(frameType, isCBOR, isHeartbeat)\<close> from the header byte \<open>frame.Data[0]\<close>. Both callers
  skip a frame with empty \<open>Data\<close> before reaching it, which is the result \<open>None\<close> here.
\<close>

definition classify :: "CANFrame \<Rightarrow> (string \<times> bool \<times> bool) option" where
  "classify frame =
     (case Data frame of
        [] \<Rightarrow> None
      | header # _ \<Rightarrow>
          Some (if isStartFrame header then (''START'', True, False)
                else if isContinuation header then (''CONT'', True, False)
                else if checkIfHeartbeat frame then (''HEARTBEAT'', False, True)
                else (''UNACCOUNTED'', False, False)))"

section \<open>Reassembly loop (main)\<close>

text \<open>
  The payload codec is the external CBOR library, called as
  \<^verbatim>\<open>bufReader := bytes.NewReader(cborBuffer); dec := cbor.NewDecoder(bufReader);
  err := dec.Decode(&item)\<close>.
  It is a parameter of the model: a function from the buffer to either an error or the
  decoded item together with the value of \<open>bufReader.Len()\<close> after the call, the number of
  bytes of the buffer the decoder left unread. The program only tests \<open>err == nil\<close>; the
  two error kinds stand for "the input ended inside a value" and "any other error".
\<close>

datatype decode_error = UnexpectedEOF | Malformed

type_synonym 'v codec = "byte list \<Rightarrow> decode_error + ('v \<times> nat)"

text \<open>The command-line flags read by the loop.\<close>

record flags =
  unaccountedOnly :: bool
  hideUnaccounted :: bool
  hideAccounted :: bool
  groupByID :: bool

text \<open>
  The lines the loop prints, one constructor per \<open>Printf\<close> site:
  \<open>printFrameHeader(frame, header, frameType)\<close>;
  "Discarding incomplete buffer (n bytes): buf";
  "New message started, buffer: buf";
  "Frame n appended, buffer now: buf (len bytes)";
  the notes of \<open>analyzeRawFrame\<close>;
  "COMPLETE CBOR MESSAGE (CAN ID, frames, bytes)" with the raw bytes and the decoded item.
\<close>

datatype 'v event =
    PrintFrameHeader CANFrame byte string
  | Discarding nat "byte list"
  | NewMessage "byte list"
  | Appended nat "byte list" nat
  | RawNote raw_note
  | Complete string nat nat "byte list" 'v

text \<open>
  The variables of \<open>main\<close> that live across iterations, and the standard output written so
  far. The counters are Go \<open>int\<close>s that start at zero and only count up; they are natural
  numbers here. The capture time range (\<open>minTimestamp\<close>, \<open>maxTimestamp\<close>,
  \<open>captureStarted\<close>) only feeds the final summary and is left out.
\<close>

record 'v loop_state =
  cborBuffer :: "byte list"
  lastCanID :: string
  frameCount :: nat
  cborMessageCount :: nat
  heartbeatCount :: nat
  totalFramesProcessed :: nat
  allFrames :: "FrameInfo list"
  stdout :: "'v event list"

definition init_state :: "'v loop_state" where
  "init_state = \<lparr>cborBuffer = [], lastCanID = [], frameCount = 0, cborMessageCount = 0,
     heartbeatCount = 0, totalFramesProcessed = 0, allFrames = [], stdout = []\<rparr>"

definition print :: "'v event list \<Rightarrow> 'v loop_state \<Rightarrow> 'v loop_state" where
  "print es s = s\<lparr>stdout := stdout s @ es\<rparr>"

text \<open>The START branch of the framing logic (immediate display).\<close>

definition start_branch ::
  "flags \<Rightarrow> CANFrame \<Rightarrow> byte \<Rightarrow> byte list \<Rightarrow> 'v loop_state \<Rightarrow> 'v loop_state" where
  "start_branch fl frame header payload s =
     (let s1 = (if \<not> unaccountedOnly fl \<and> \<not> hideAccounted fl
                then print [PrintFrameHeader frame header ''START''] s else s);
          s2 = (if length (cborBuffer s1) > 0
                then print [Discarding (length (cborBuffer s1)) (cborBuffer s1)] s1 else s1);
          s3 = s2\<lparr>cborBuffer := payload, lastCanID := ID frame, frameCount := 1\<rparr>
      in print [NewMessage (cborBuffer s3)] s3)"

text \<open>The CONTINUATION branch of the framing logic (immediate display).\<close>

definition cont_branch ::
  "flags \<Rightarrow> CANFrame \<Rightarrow> byte \<Rightarrow> byte list \<Rightarrow> 'v loop_state \<Rightarrow> 'v loop_state" where
  "cont_branch fl frame header payload s =
     (let s1 = (if \<not> unaccountedOnly fl \<and> \<not> hideAccounted fl
                then print [PrintFrameHeader frame header ''CONT''] s else s);
          s2 = s1\<lparr>cborBuffer := cborBuffer s1 @ payload, frameCount := frameCount s1 + 1\<rparr>
      in print [Appended (frameCount s2) (cborBuffer s2) (length (cborBuffer s2))] s2)"

text \<open>The branch for a frame that is neither START nor CONTINUATION; it ends the iteration.\<close>

definition raw_branch :: "flags \<Rightarrow> CANFrame \<Rightarrow> byte \<Rightarrow> 'v loop_state \<Rightarrow> 'v loop_state" where
  "raw_branch fl frame header s =
     (let showVerbose = (\<not> unaccountedOnly fl \<and> \<not> hideUnaccounted fl \<and> \<not> hideAccounted fl);
          (notes, isHeartbeat) = analyzeRawFrame frame showVerbose;
          s1 = print (map RawNote notes) s;
          s2 = (if \<not> isHeartbeat \<and> (unaccountedOnly fl \<or> hideAccounted fl)
                then print [PrintFrameHeader frame header ''UNACCOUNTED''] s1 else s1)
      in (if isHeartbeat then s2\<lparr>heartbeatCount := heartbeatCount s2 + 1\<rparr> else s2))"

text \<open>
  The decode attempt that follows the START and CONTINUATION branches:
  \<^verbatim>\<open>if len(cborBuffer) > 0 { ...; err := dec.Decode(&item)
    if err == nil { bytesConsumed := len(cborBuffer) - bufReader.Len(); cborMessageCount++
      ...; cborBuffer = cborBuffer[bytesConsumed:] } }\<close>
  There is no \<open>else\<close> to \<open>err == nil\<close>.
\<close>

definition try_decode :: "'v codec \<Rightarrow> 'v loop_state \<Rightarrow> 'v loop_state" where
  "try_decode dec s =
     (if length (cborBuffer s) > 0 then
        (case dec (cborBuffer s) of
           Inl err \<Rightarrow> s
         | Inr (item, unread) \<Rightarrow>
             (let bytesConsumed = length (cborBuffer s) - unread;
                  s1 = s\<lparr>cborMessageCount := cborMessageCount s + 1\<rparr>;
                  s2 = print [Complete (lastCanID s1) (frameCount s1) bytesConsumed
                                (take bytesConsumed (cborBuffer s1)) item] s1
              in s2\<lparr>cborBuffer := drop bytesConsumed (cborBuffer s2)\<rparr>))
      else s)"

text \<open>
  With \<open>-group-by-id\<close> the frame is stored for the grouped display and the buffer is
  maintained without printing ("Skip immediate display if grouping"):
  \<^verbatim>\<open>if isStartFrame { cborBuffer = make([]byte, 0); cborBuffer = append(cborBuffer, payload...)
       lastCanID = frame.ID; frameCount = 1 }
  else if isContinuation { cborBuffer = append(cborBuffer, payload...); frameCount++ }\<close>
\<close>

definition absorb_grouped ::
  "CANFrame \<Rightarrow> byte \<Rightarrow> byte list \<Rightarrow> 'v loop_state \<Rightarrow> 'v loop_state" where
  "absorb_grouped frame header payload s =
     (if isStartFrame header
      then s\<lparr>cborBuffer := payload, lastCanID := ID frame, frameCount := 1\<rparr>
      else if isContinuation header
      then s\<lparr>cborBuffer := cborBuffer s @ payload, frameCount := frameCount s + 1\<rparr>
      else s)"

text \<open>
  \<^verbatim>\<open>if isCBOR && len(cborBuffer) > 0 { ...
     if dec.Decode(&item) == nil { cborMessageCount++
        cborBuffer = cborBuffer[len(cborBuffer)-bufReader.Len():] } }\<close>
\<close>

definition decode_grouped :: "'v codec \<Rightarrow> bool \<Rightarrow> 'v loop_state \<Rightarrow> 'v loop_state" where
  "decode_grouped dec isCBOR s =
     (if isCBOR \<and> length (cborBuffer s) > 0 then
        (case dec (cborBuffer s) of
           Inl err \<Rightarrow> s
         | Inr (item, unread) \<Rightarrow>
             s\<lparr>cborMessageCount := cborMessageCount s + 1,
               cborBuffer := drop (length (cborBuffer s) - unread) (cborBuffer s)\<rparr>)
      else s)"

text \<open>The \<open>FrameInfo\<close> appended to \<open>allFrames\<close>; the sequence number is \<open>totalFramesProcessed\<close>.\<close>

definition store_frame ::
  "CANFrame \<Rightarrow> float64 \<Rightarrow> byte \<Rightarrow> string \<Rightarrow> bool \<Rightarrow> bool \<Rightarrow> 'v loop_state \<Rightarrow> 'v loop_state" where
  "store_frame frame timestampFloat header frameType isCBOR isHeartbeat s =
     s\<lparr>allFrames := allFrames s @
         [\<lparr>Frame = frame, TimestampFloat = timestampFloat, Header = header,
           FrameType = frameType, IsHeartbeat = isHeartbeat, IsCBOR = isCBOR,
           SequenceNum = int (totalFramesProcessed s)\<rparr>]\<rparr>"

definition grouped_branch ::
  "'v codec \<Rightarrow> CANFrame \<Rightarrow> float64 \<Rightarrow> byte \<Rightarrow> byte list \<Rightarrow> string \<Rightarrow> bool \<Rightarrow> bool \<Rightarrow>
     'v loop_state \<Rightarrow> 'v loop_state" where
  "grouped_branch dec frame timestampFloat header payload frameType isCBOR isHeartbeat s =
     (let s1 = store_frame frame timestampFloat header frameType isCBOR isHeartbeat s;
          s2 = absorb_grouped frame header payload s1;
          s3 = decode_grouped dec isCBOR s2
      in (if isHeartbeat then s3\<lparr>heartbeatCount := heartbeatCount s3 + 1\<rparr> else s3))"

text \<open>
  One iteration of the loop of \<open>main\<close>, from the check \<open>len(frame.Data) == 0\<close> on. The input
  is the parsed frame with its timestamp in seconds; parsing the line is the ingestion
  adapter's work.
\<close>

definition loop_body ::
  "'v codec \<Rightarrow> flags \<Rightarrow> CANFrame \<times> float64 \<Rightarrow> 'v loop_state \<Rightarrow> 'v loop_state" where
  "loop_body dec fl input s =
     (case input of (frame, timestampFloat) \<Rightarrow>
      (case classify frame of
         None \<Rightarrow> s
       | Some (frameType, isCBOR, isHeartbeat) \<Rightarrow>
           (let s0 = s\<lparr>totalFramesProcessed := totalFramesProcessed s + 1\<rparr>;
                header = hd (Data frame);
                payload = tl (Data frame)
            in if groupByID fl then
                 grouped_branch dec frame timestampFloat header payload frameType isCBOR
                   isHeartbeat s0
               else if isStartFrame header then
                 try_decode dec (start_branch fl frame header payload s0)
               else if isContinuation header then
                 try_decode dec (cont_branch fl frame header payload s0)
               else raw_branch fl frame header s0)))"

text \<open>The loop over the frames of the input, in arrival order.\<close>

fun run :: "'v codec \<Rightarrow> flags \<Rightarrow> (CANFrame \<times> float64) list \<Rightarrow> 'v loop_state \<Rightarrow> 'v loop_state" where
  "run dec fl [] s = s"
| "run dec fl (x # xs) s = run dec fl xs (loop_body dec fl x s)"

text \<open>
  The state after the framing branch of a START or CONTINUATION frame and before the
  decode attempt, in either display mode.
\<close>

definition absorb :: "flags \<Rightarrow> CANFrame \<times> float64 \<Rightarrow> 'v loop_state \<Rightarrow> 'v loop_state" where
  "absorb fl input s =
     (case input of (frame, timestampFloat) \<Rightarrow>
      (let s0 = s\<lparr>totalFramesProcessed := totalFramesProcessed s + 1\<rparr>;
           header = hd (Data frame);
           payload = tl (Data frame)
       in if groupByID fl then
            absorb_grouped frame header payload
              (store_frame frame timestampFloat header
                 (if isStartFrame header then ''START'' else ''CONT'') True False s0)
          else if isStartFrame header then start_branch fl frame header payload s0
          else cont_branch fl frame header payload s0))"

text \<open>The decode attempt of either display mode; only the immediate display prints.\<close>

definition decode_attempt :: "'v codec \<Rightarrow> flags \<Rightarrow> 'v loop_state \<Rightarrow> 'v loop_state" where
  "decode_attempt dec fl s =
     (if groupByID fl then decode_grouped dec True s else try_decode dec s)"

text \<open>The lines that announce a decoded message.\<close>

fun is_Complete :: "'v event \<Rightarrow> bool" where
  "is_Complete (Complete _ _ _ _ _) = True"
| "is_Complete _ = False"

text \<open>
  The one line of the loop that reports a framing anomaly, the warning printed when a
  START frame finds an unfinished buffer.
\<close>

fun is_warning :: "'v event \<Rightarrow> bool" where
  "is_warning (Discarding _ _) = True"
| "is_warning _ = False"

text \<open>The header-stripped payload \<open>frame.Data[1:]\<close> of an input frame.\<close>

definition stripped :: "CANFrame \<times> float64 \<Rightarrow> byte list" where
  "stripped x = tl (Data (fst x))"

definition is_START :: "CANFrame \<times> float64 \<Rightarrow> bool" where
  "is_START x \<longleftrightarrow> classify (fst x) = Some (''START'', True, False)"

definition is_CONT :: "CANFrame \<times> float64 \<Rightarrow> bool" where
  "is_CONT x \<longleftrightarrow> classify (fst x) = Some (''CONT'', True, False)"

section \<open>Grouped display (decoder.go)\<close>

text \<open>
  \<open>sort.Slice\<close> belongs to the Go standard library and is a parameter of the model. The
  library asks of the comparator what it asks of \<open>sort.Interface.Less\<close>, a transitive
  ordering of the elements of the slice: no element is less than itself, and both "less"
  and "not less" are transitive. It notes that \<open><\<close> on \<open>float64\<close> is no such ordering when
  NaN values are involved.
\<close>

definition transitive_ordering :: "('a \<Rightarrow> 'a \<Rightarrow> bool) \<Rightarrow> 'a set \<Rightarrow> bool" where
  "transitive_ordering lt A \<longleftrightarrow>
     (\<forall>a \<in> A. \<not> lt a a)
     \<and> (\<forall>a \<in> A. \<forall>b \<in> A. \<forall>c \<in> A. lt a b \<and> lt b c \<longrightarrow> lt a c)
     \<and> (\<forall>a \<in> A. \<forall>b \<in> A. \<forall>c \<in> A. \<not> lt a b \<and> \<not> lt b c \<longrightarrow> \<not> lt a c)"

text \<open>
  The contract of \<open>sort.Slice\<close> for a comparator \<open>lt\<close>: the result is a permutation of the
  slice (the library only swaps elements), and where \<open>lt\<close> is a transitive ordering of the
  elements of the slice, no element of the result is \<open>lt\<close> an element before it. The library
  does not promise a stable sort, and promises no order where \<open>lt\<close> is no transitive
  ordering.
\<close>

type_synonym 'a sortSlice = "('a \<Rightarrow> 'a \<Rightarrow> bool) \<Rightarrow> 'a list \<Rightarrow> 'a list"

definition slice_sorter :: "'a sortSlice \<Rightarrow> ('a \<Rightarrow> 'a \<Rightarrow> bool) \<Rightarrow> bool" where
  "slice_sorter sortSlice lt \<longleftrightarrow>
     (\<forall>xs. mset (sortSlice lt xs) = mset xs
          \<and> (transitive_ordering lt (set xs) \<longrightarrow>
                sorted_wrt (\<lambda>a b. \<not> lt b a) (sortSlice lt xs)))"










section \<open>Comparison of unaccounted frames across files\<close>

text \<open>
  \<open>fmt.Sprintf("%02X", b)\<close> for a byte and \<open>fmt.Sprintf("%X", data)\<close> for a byte slice: two
  upper-case hexadecimal digits per byte.
\<close>

definition hexDigit :: "nat \<Rightarrow> char" where
  "hexDigit n = ''0123456789ABCDEF'' ! n"

definition hexByte :: "byte \<Rightarrow> string" where
  "hexByte b = [hexDigit (unat b div 16), hexDigit (unat b mod 16)]"

definition hexBytes :: "byte list \<Rightarrow> string" where
  "hexBytes bs = concat (map hexByte bs)"

text \<open>
  \<^verbatim>\<open>type UnaccountedFrame struct { ID string; Header byte; DataHex string;
  Occurrences map[string]int }\<close>
  The fields \<open>ID\<close> and \<open>Header\<close> carry the prefix \<open>uf_\<close>, since \<open>CANFrame\<close> and \<open>FrameInfo\<close>
  have fields of these names. A Go map is a partial function; \<open>len\<close> of a map is the
  cardinality of its domain. The occurrence counts start at zero and only count up; they
  are natural numbers.
\<close>

record UnaccountedFrame =
  uf_ID :: string
  uf_Header :: byte
  DataHex :: string
  Occurrences :: "string \<rightharpoonup> nat"

text \<open>
  A \<open>range\<close> loop visits the keys of a map once each, in an order the language leaves
  open. The order is a parameter: for the \<open>range\<close> statement number \<open>i\<close> of
  \<open>CompareUnaccountedFrames\<close> and \<open>countUniqueFrames\<close> and the key set \<open>K\<close>, \<open>ro i K\<close> is the
  order of the visit. The statements are numbered 0 (\<open>fileFrames\<close>, collecting patterns),
  1 (\<open>fileFrames\<close>, collecting file names), 2 (\<open>framePatterns\<close>), 3
  (\<open>pattern.Occurrences\<close>) and 4 (\<open>uniqueFrames\<close>, in \<open>countUniqueFrames\<close>).
\<close>

type_synonym range_order = "nat \<Rightarrow> string set \<Rightarrow> string list"

definition range_ok :: "range_order \<Rightarrow> bool" where
  "range_ok ro \<longleftrightarrow> (\<forall>i K. finite K \<longrightarrow> set (ro i K) = K \<and> distinct (ro i K))"

text \<open>\<open>key := fmt.Sprintf("%s:%02X:%s", f.Frame.ID, f.Header, dataHex)\<close>\<close>

definition pattern_key :: "FrameInfo \<Rightarrow> string" where
  "pattern_key f = ID (Frame f) @ '':'' @ hexByte (Header f) @ '':'' @ hexBytes (Data (Frame f))"

text \<open>
  The body of the inner loop: an accounted frame is skipped; otherwise the pattern of the
  frame's key is created if it is missing, and its count for the file is incremented.
\<close>

definition add_frame ::
  "string \<Rightarrow> (string \<rightharpoonup> UnaccountedFrame) \<Rightarrow> FrameInfo \<Rightarrow> (string \<rightharpoonup> UnaccountedFrame)" where
  "add_frame filename framePatterns f =
     (if IsCBOR f \<or> IsHeartbeat f then framePatterns
      else
        (let dataHex = hexBytes (Data (Frame f));
             key = pattern_key f;
             pattern = (case framePatterns key of
                          Some p \<Rightarrow> p
                        | None \<Rightarrow> \<lparr>uf_ID = ID (Frame f), uf_Header = Header f,
                                   DataHex = dataHex, Occurrences = Map.empty\<rparr>);
             cnt = (case Occurrences pattern filename of None \<Rightarrow> 0 | Some n \<Rightarrow> n)
         in framePatterns(key \<mapsto>
              pattern\<lparr>Occurrences := (Occurrences pattern)(filename \<mapsto> cnt + 1)\<rparr>)))"

text \<open>\<open>fileFrames[fn]\<close>, which is the empty slice for a missing key.\<close>

definition frames_of :: "(string \<rightharpoonup> FrameInfo list) \<Rightarrow> string \<Rightarrow> FrameInfo list" where
  "frames_of fileFrames fn = (case fileFrames fn of None \<Rightarrow> [] | Some frames \<Rightarrow> frames)"

definition collect_patterns ::
  "range_order \<Rightarrow> (string \<rightharpoonup> FrameInfo list) \<Rightarrow> (string \<rightharpoonup> UnaccountedFrame)" where
  "collect_patterns ro fileFrames =
     foldl (\<lambda>framePatterns filename.
              foldl (add_frame filename) framePatterns (frames_of fileFrames filename))
       Map.empty (ro 0 (dom fileFrames))"

text \<open>
  The comparator of \<open>sortFramesByID\<close>: by \<open>ID\<close>, then by \<open>Header\<close>, then by \<open>DataHex\<close>. Go
  compares strings byte by byte and bytes as unsigned numbers.
\<close>

definition patternLess :: "UnaccountedFrame \<Rightarrow> UnaccountedFrame \<Rightarrow> bool" where
  "patternLess a b =
     (if uf_ID a = uf_ID b then
        (if uf_Header a = uf_Header b then DataHex a < DataHex b
         else uf_Header a < uf_Header b)
      else uf_ID a < uf_ID b)"

definition sortFramesByID :: "UnaccountedFrame sortSlice \<Rightarrow> UnaccountedFrame list \<Rightarrow> UnaccountedFrame list" where
  "sortFramesByID sortSlice frames = sortSlice patternLess frames"

text \<open>The three categories: \<open>commonToAll\<close>, \<open>uniqueFrames\<close> (a map from file name) and \<open>partialFrames\<close>.\<close>

record categories =
  commonToAll :: "UnaccountedFrame list"
  uniqueFrames :: "string \<rightharpoonup> UnaccountedFrame list"
  partialFrames :: "UnaccountedFrame list"

text \<open>\<open>uniqueFrames[fn]\<close>, which is the empty slice for a missing key.\<close>

definition unique_of :: "(string \<rightharpoonup> UnaccountedFrame list) \<Rightarrow> string \<Rightarrow> UnaccountedFrame list" where
  "unique_of u fn = (case u fn of None \<Rightarrow> [] | Some ps \<Rightarrow> ps)"

text \<open>
  The body of the categorisation loop, with \<open>n = len(filenames)\<close>:
  \<^verbatim>\<open>if len(pattern.Occurrences) == len(filenames) { commonToAll = append(commonToAll, pattern) }
  else if len(pattern.Occurrences) == 1 {
     for fn := range pattern.Occurrences { uniqueFrames[fn] = append(uniqueFrames[fn], pattern) } }
  else { partialFrames = append(partialFrames, pattern) }\<close>
\<close>

definition categorize_one ::
  "range_order \<Rightarrow> nat \<Rightarrow> categories \<Rightarrow> UnaccountedFrame \<Rightarrow> categories" where
  "categorize_one ro n c pattern =
     (if card (dom (Occurrences pattern)) = n
      then c\<lparr>commonToAll := commonToAll c @ [pattern]\<rparr>
      else if card (dom (Occurrences pattern)) = 1
      then c\<lparr>uniqueFrames :=
               foldl (\<lambda>u fn. u(fn \<mapsto> unique_of u fn @ [pattern])) (uniqueFrames c)
                 (ro 3 (dom (Occurrences pattern)))\<rparr>
      else c\<lparr>partialFrames := partialFrames c @ [pattern]\<rparr>)"

text \<open>The patterns in the order in which \<open>range framePatterns\<close> visits them.\<close>

definition pattern_list :: "range_order \<Rightarrow> (string \<rightharpoonup> UnaccountedFrame) \<Rightarrow> UnaccountedFrame list" where
  "pattern_list ro framePatterns = List.map_filter framePatterns (ro 2 (dom framePatterns))"

definition categorize ::
  "range_order \<Rightarrow> nat \<Rightarrow> (string \<rightharpoonup> UnaccountedFrame) \<Rightarrow> categories" where
  "categorize ro n framePatterns =
     foldl (categorize_one ro n)
       \<lparr>commonToAll = [], uniqueFrames = Map.empty, partialFrames = []\<rparr>
       (pattern_list ro framePatterns)"

definition countUniqueFrames :: "range_order \<Rightarrow> (string \<rightharpoonup> UnaccountedFrame list) \<Rightarrow> nat" where
  "countUniqueFrames ro u =
     foldl (\<lambda>total fn. total + length (unique_of u fn)) 0 (ro 4 (dom u))"

text \<open>
  What \<open>CompareUnaccountedFrames\<close> prints: per file (in the order of the sorted file
  names) the name, the number of unaccounted frames and the number of frames; per common
  pattern its identifier, header, data and the counts per file; per file with unique
  patterns the name and, per pattern, identifier, header, data and count; per partial
  pattern identifier, header, data and the pairs of file number and count; the four
  numbers of the summary. A section that is not printed is the empty list.
\<close>

record report =
  fileSummary :: "(string \<times> nat \<times> nat) list"
  commonRows :: "(string \<times> byte \<times> string \<times> nat list) list"
  uniqueSections :: "(string \<times> (string \<times> byte \<times> string \<times> nat) list) list"
  partialRows :: "(string \<times> byte \<times> string \<times> (nat \<times> nat) list) list"
  totalPatterns :: nat
  commonCount :: nat
  uniqueCount :: nat
  partialCount :: nat

text \<open>\<open>p.Occurrences[fn]\<close>, which is zero for a missing key.\<close>

definition occurrences_of :: "UnaccountedFrame \<Rightarrow> string \<Rightarrow> nat" where
  "occurrences_of p fn = (case Occurrences p fn of None \<Rightarrow> 0 | Some c \<Rightarrow> c)"

text \<open>
  \<^verbatim>\<open>for i, fn := range filenames {
     if count, ok := p.Occurrences[fn]; ok {
        presentIn = append(presentIn, fmt.Sprintf("[%d]:%d", i+1, count)) } }\<close>
\<close>

definition presentIn :: "UnaccountedFrame \<Rightarrow> string list \<Rightarrow> (nat \<times> nat) list" where
  "presentIn p filenames =
     concat (map (\<lambda>(i, fn). case Occurrences p fn of
                               Some c \<Rightarrow> [(i + 1, c)]
                             | None \<Rightarrow> [])
               (enumerate 0 filenames))"

definition CompareUnaccountedFrames ::
  "range_order \<Rightarrow> UnaccountedFrame sortSlice \<Rightarrow> (string \<rightharpoonup> FrameInfo list) \<Rightarrow> report" where
  "CompareUnaccountedFrames ro sortSlice fileFrames =
     (let framePatterns = collect_patterns ro fileFrames;
          filenames = sort (ro 1 (dom fileFrames));
          cats = categorize ro (length filenames) framePatterns
      in \<lparr>fileSummary =
             map (\<lambda>fn. (fn,
                        length (filter (\<lambda>f. \<not> IsCBOR f \<and> \<not> IsHeartbeat f)
                                  (frames_of fileFrames fn)),
                        length (frames_of fileFrames fn)))
               filenames,
           commonRows =
             (if length (commonToAll cats) > 0
              then map (\<lambda>p. (uf_ID p, uf_Header p, DataHex p,
                              map (occurrences_of p) filenames))
                     (sortFramesByID sortSlice (commonToAll cats))
              else []),
           uniqueSections =
             concat (map (\<lambda>fn.
                 let frames = unique_of (uniqueFrames cats) fn
                 in if length frames > 0
                    then [(fn, map (\<lambda>p. (uf_ID p, uf_Header p, DataHex p, occurrences_of p fn))
                                 (sortFramesByID sortSlice frames))]
                    else [])
               filenames),
           partialRows =
             (if length (partialFrames cats) > 0
              then map (\<lambda>p. (uf_ID p, uf_Header p, DataHex p, presentIn p filenames))
                     (sortFramesByID sortSlice (partialFrames cats))
              else []),
           totalPatterns = card (dom framePatterns),
           commonCount = length (commonToAll cats),
           uniqueCount = countUniqueFrames ro (uniqueFrames cats),
           partialCount = length (partialFrames cats)\<rparr>)"

text \<open>The shape of a frame, of which the key is a function, and the sort key of a pattern.\<close>

definition shape :: "FrameInfo \<Rightarrow> string \<times> byte \<times> byte list" where
  "shape f = (ID (Frame f), Header f, Data (Frame f))"

definition pattern_triple :: "UnaccountedFrame \<Rightarrow> string \<times> byte \<times> string" where
  "pattern_triple p = (uf_ID p, uf_Header p, DataHex p)"

text \<open>The unaccounted frames of all files.\<close>

definition unaccounted_frames :: "(string \<rightharpoonup> FrameInfo list) \<Rightarrow> FrameInfo set" where
  "unaccounted_frames fileFrames =
     {f. \<exists>fn frames. fileFrames fn = Some frames \<and> f \<in> set frames
           \<and> \<not> IsCBOR f \<and> \<not> IsHeartbeat f}"

subsection \<open>Auxiliary notions for the comparison\<close>

text \<open>The key as a function of the shape.\<close>

definition key_of_shape :: "string \<times> byte \<times> byte list \<Rightarrow> string" where
  "key_of_shape sh = (case sh of (i, h, d) \<Rightarrow> i @ '':'' @ hexByte h @ '':'' @ hexBytes d)"

text \<open>The pattern a frame creates when its key is new.\<close>

definition new_pattern :: "FrameInfo \<Rightarrow> UnaccountedFrame" where
  "new_pattern f = \<lparr>uf_ID = ID (Frame f), uf_Header = Header f,
     DataHex = hexBytes (Data (Frame f)), Occurrences = Map.empty\<rparr>"

text \<open>\<open>pattern.Occurrences[filename]++\<close>\<close>

definition bump :: "string \<Rightarrow> UnaccountedFrame \<Rightarrow> UnaccountedFrame" where
  "bump fn p = p\<lparr>Occurrences := (Occurrences p)(fn \<mapsto>
     (case Occurrences p fn of None \<Rightarrow> 0 | Some n \<Rightarrow> n) + 1)\<rparr>"

text \<open>The pattern that the frame's count goes to: the stored one, or a new one.\<close>

definition entry :: "(string \<rightharpoonup> UnaccountedFrame) \<Rightarrow> FrameInfo \<Rightarrow> UnaccountedFrame" where
  "entry m f = (case m (pattern_key f) of Some p \<Rightarrow> p | None \<Rightarrow> new_pattern f)"

text \<open>The inner loop over the frames of one file.\<close>

definition add_file ::
  "(string \<rightharpoonup> FrameInfo list) \<Rightarrow> string \<Rightarrow> (string \<rightharpoonup> UnaccountedFrame) \<Rightarrow> (string \<rightharpoonup> UnaccountedFrame)" where
  "add_file fileFrames filename framePatterns =
     foldl (add_frame filename) framePatterns (frames_of fileFrames filename)"

text \<open>The frames the comparison keeps: \<open>!f.IsCBOR && !f.IsHeartbeat\<close>.\<close>

definition unaccounted :: "FrameInfo \<Rightarrow> bool" where
  "unaccounted f \<longleftrightarrow> \<not> IsCBOR f \<and> \<not> IsHeartbeat f"

text \<open>The key under which a pattern is stored is a function of its three fields.\<close>

definition key_of_triple :: "string \<times> byte \<times> string \<Rightarrow> string" where
  "key_of_triple t = (case t of (i, h, d) \<Rightarrow> i @ '':'' @ hexByte h @ '':'' @ d)"

text \<open>Every pattern is stored under the key of its own fields.\<close>

definition keyed :: "(string \<rightharpoonup> UnaccountedFrame) \<Rightarrow> bool" where
  "keyed m \<longleftrightarrow> (\<forall>k p. m k = Some p \<longrightarrow> k = key_of_triple (pattern_triple p))"

text \<open>The three branches of the categorisation, as predicates on a pattern.\<close>

definition is_common :: "nat \<Rightarrow> UnaccountedFrame \<Rightarrow> bool" where
  "is_common n p \<longleftrightarrow> card (dom (Occurrences p)) = n"

definition is_unique :: "nat \<Rightarrow> UnaccountedFrame \<Rightarrow> bool" where
  "is_unique n p \<longleftrightarrow> card (dom (Occurrences p)) \<noteq> n \<and> card (dom (Occurrences p)) = 1"

definition is_partial :: "nat \<Rightarrow> UnaccountedFrame \<Rightarrow> bool" where
  "is_partial n p \<longleftrightarrow> card (dom (Occurrences p)) \<noteq> n \<and> card (dom (Occurrences p)) \<noteq> 1"

text \<open>The patterns appended to \<open>uniqueFrames[fn]\<close>.\<close>

definition unique_in :: "nat \<Rightarrow> string \<Rightarrow> UnaccountedFrame \<Rightarrow> bool" where
  "unique_in n fn p \<longleftrightarrow> is_unique n p \<and> fn \<in> dom (Occurrences p)"

text \<open>The identifier, header and data of a printed row.\<close>

definition row_triple :: "string \<times> byte \<times> string \<times> 'a \<Rightarrow> string \<times> byte \<times> string" where
  "row_triple row = (case row of (i, h, d, _) \<Rightarrow> (i, h, d))"

text \<open>The report, written with the lists of the categories as filters of the pattern list.\<close>

definition report_of ::
  "UnaccountedFrame sortSlice \<Rightarrow> (string \<rightharpoonup> FrameInfo list) \<Rightarrow> string list \<Rightarrow> nat \<Rightarrow>
     UnaccountedFrame list \<Rightarrow> nat \<Rightarrow> report" where
  "report_of sortSlice ff filenames tot ps n =
     \<lparr>fileSummary =
        map (\<lambda>fn. (fn, length (filter (\<lambda>f. \<not> IsCBOR f \<and> \<not> IsHeartbeat f) (frames_of ff fn)),
                   length (frames_of ff fn))) filenames,
      commonRows =
        (if length (filter (is_common n) ps) > 0
         then map (\<lambda>p. (uf_ID p, uf_Header p, DataHex p, map (occurrences_of p) filenames))
                (sortFramesByID sortSlice (filter (is_common n) ps))
         else []),
      uniqueSections =
        concat (map (\<lambda>fn.
            if length (filter (unique_in n fn) ps) > 0
            then [(fn, map (\<lambda>p. (uf_ID p, uf_Header p, DataHex p, occurrences_of p fn))
                         (sortFramesByID sortSlice (filter (unique_in n fn) ps)))]
            else [])
          filenames),
      partialRows =
        (if length (filter (is_partial n) ps) > 0
         then map (\<lambda>p. (uf_ID p, uf_Header p, DataHex p, presentIn p filenames))
                (sortFramesByID sortSlice (filter (is_partial n) ps))
         else []),
      totalPatterns = tot,
      commonCount = length (filter (is_common n) ps),
      uniqueCount = length (filter (is_unique n) ps),
      partialCount = length (filter (is_partial n) ps)\<rparr>"

text \<open>
  The bytes \<open>B\<close> are exactly one encoded value \<open>v\<close>: the codec decodes \<open>B\<close> and leaves nothing
  unread, and it reports an error on every shorter non-empty prefix of \<open>B\<close>, where the
  value is still incomplete.
\<close>

definition encodes_exactly :: "'v codec \<Rightarrow> byte list \<Rightarrow> 'v \<Rightarrow> bool" where
  "encodes_exactly dec B v \<longleftrightarrow>
     B \<noteq> [] \<and> dec B = Inr (v, 0) \<and> (\<forall>P \<in> set (prefixes B). P \<noteq> [] \<and> P \<noteq> B \<longrightarrow> isl (dec P))"

text \<open>
  The number of leading frames of \<open>cs\<close> up to and including the last one whose stripped
  payload is not empty.
\<close>

definition last_carrying :: "(CANFrame \<times> float64) list \<Rightarrow> nat" where
  "last_carrying cs = length (dropWhile (\<lambda>c. stripped c = []) (rev cs))"

subsection \<open>Inputs of the worked examples\<close>

text \<open>
  A stand-in for the codec in worked examples: the CBOR unsigned integers with an
  immediate value (\<open>0x00\<close> to \<open>0x17\<close>) or a one-byte argument (\<open>0x18 n\<close>). It reports the
  bytes behind the value as unread. It answers as CBOR does on the buffers the examples
  give it: these integers, the lone byte \<open>0x18\<close> (a value cut short) and the lone byte
  \<open>0xFF\<close> (a break outside an indefinite-length item, which is malformed). Any other
  first byte it also calls malformed, where CBOR has further types; no example decodes
  such a buffer.
\<close>

fun uint_codec :: "nat codec" where
  "uint_codec [] = Inl UnexpectedEOF"
| "uint_codec (b # bs) =
     (if b < 0x18 then Inr (unat b, length bs)
      else if b = 0x18 then
        (case bs of [] \<Rightarrow> Inl UnexpectedEOF | c # cs \<Rightarrow> Inr (unat c, length cs))
      else Inl Malformed)"

definition mk_frame :: "string \<Rightarrow> byte list \<Rightarrow> CANFrame" where
  "mk_frame canID bs = \<lparr>Timestamp = [], ID = canID, IsExtended = length canID > 3,
     Direction = [], Bus = 0, Length = int (length bs), Data = bs\<rparr>"

definition show_all :: flags where
  "show_all = \<lparr>unaccountedOnly = False, hideUnaccounted = False, hideAccounted = False,
     groupByID = False\<rparr>"

definition grouping :: flags where
  "grouping = \<lparr>unaccountedOnly = False, hideUnaccounted = False, hideAccounted = False,
     groupByID = True\<rparr>"

definition start_state :: "nat loop_state" where
  "start_state = init_state"

definition busy_state :: "nat loop_state" where
  "busy_state = init_state\<lparr>cborBuffer := [0x18], lastCanID := ''123'', frameCount := 1\<rparr>"

definition start_18 :: CANFrame where "start_18 = mk_frame ''123'' [0xA0, 0x18]"
definition start_FF :: CANFrame where "start_FF = mk_frame ''123'' [0xA0, 0xFF]"
definition start_01 :: CANFrame where "start_01 = mk_frame ''123'' [0xA0, 0x01]"
definition cont_2A :: CANFrame where "cont_2A = mk_frame ''123'' [0x10, 0x2A]"
definition cont_empty :: CANFrame where "cont_empty = mk_frame ''123'' [0x10]"
definition cont_18 :: CANFrame where "cont_18 = mk_frame ''123'' [0x10, 0x18]"

text \<open>
  An instance of the contract of \<open>sort.Slice\<close> for worked examples: insertion sort, in which
  each element moves left past the elements it is less than.
\<close>

fun sink :: "('a \<Rightarrow> 'a \<Rightarrow> bool) \<Rightarrow> 'a \<Rightarrow> 'a list \<Rightarrow> 'a list" where
  "sink lt x [] = [x]"
| "sink lt x (y # ys) = (if lt x y then y # sink lt x ys else x # y # ys)"

definition insertionSort :: "'a sortSlice" where
  "insertionSort lt xs = rev (foldl (\<lambda>acc x. sink lt x acc) [] xs)"

text \<open>An instance of the \<open>range\<close> order for worked examples: the keys in ascending order.\<close>

definition sorted_range :: range_order where
  "sorted_range i K = sorted_list_of_set K"

definition unaccounted_info :: "string \<Rightarrow> float64 \<Rightarrow> int \<Rightarrow> byte list \<Rightarrow> FrameInfo" where
  "unaccounted_info canID ts n bs = \<lparr>Frame = mk_frame canID bs, TimestampFloat = ts,
     Header = hd bs, FrameType = ''UNACCOUNTED'', IsHeartbeat = False, IsCBOR = False,
     SequenceNum = n\<rparr>"

definition heartbeat_info :: "float64 \<Rightarrow> int \<Rightarrow> FrameInfo" where
  "heartbeat_info ts n = \<lparr>Frame = mk_frame ''0111100000'' [0, 0, 0], TimestampFloat = ts,
     Header = 0, FrameType = ''HEARTBEAT'', IsHeartbeat = True, IsCBOR = False,
     SequenceNum = n\<rparr>"



text \<open>Three files for the worked examples of the comparison, and the patterns they give.\<close>

definition sample_files :: "string \<rightharpoonup> FrameInfo list" where
  "sample_files = [''A.csv'' \<mapsto> [unaccounted_info ''100'' (Num 0) 1 [0x50],
                                unaccounted_info ''200'' (Num 0) 2 [0x51, 0x01]],
                   ''B.csv'' \<mapsto> [unaccounted_info ''100'' (Num 0) 1 [0x50],
                                unaccounted_info ''100'' (Num 1) 2 [0x50]],
                   ''C.csv'' \<mapsto> [heartbeat_info (Num 0) 1]]"

definition pat100 :: UnaccountedFrame where
  "pat100 = \<lparr>uf_ID = ''100'', uf_Header = 0x50, DataHex = ''50'',
     Occurrences = [''A.csv'' \<mapsto> 1, ''B.csv'' \<mapsto> 2]\<rparr>"

definition pat200 :: UnaccountedFrame where
  "pat200 = \<lparr>uf_ID = ''200'', uf_Header = 0x51, DataHex = ''5101'',
     Occurrences = [''A.csv'' \<mapsto> 1]\<rparr>"

text \<open>A second \<open>range\<close> order for worked examples: the keys in descending order.\<close>

definition rev_range :: range_order where
  "rev_range i K = rev (sorted_list_of_set K)"

definition hb_frame :: CANFrame where
  "hb_frame = \<lparr>Timestamp = ''1.5'', ID = ''0111100000'', IsExtended = True, Direction = ''Rx'',
     Bus = 0, Length = 3, Data = [0, 0, 0]\<rparr>"

section \<open>Properties of classification and heartbeat detection\<close>

lemma noNonZero_iff: "noNonZero bs \<longleftrightarrow> (\<forall>b \<in> set bs. b = 0)"
  by (induction bs) auto

lemma allZero_loop_iff: "allZero_loop a bs \<longleftrightarrow> a \<and> (\<forall>b \<in> set bs. b = 0)"
  by (induction bs) auto

lemma checkIfHeartbeat_iff:
  "checkIfHeartbeat frame \<longleftrightarrow> prefix ''01111'' (ID frame) \<and> (\<forall>b \<in> set (Data frame). b = 0)"
  by (simp add: checkIfHeartbeat_def noNonZero_iff)

lemmas ex_defs = start_18_def start_FF_def start_01_def cont_2A_def cont_empty_def cont_18_def mk_frame_def
  busy_state_def start_state_def init_state_def show_all_def grouping_def

lemmas step_defs = loop_body_def classify_def isStartFrame_def isContinuation_def
  start_branch_def cont_branch_def try_decode_def grouped_branch_def absorb_grouped_def
  decode_grouped_def absorb_def decode_attempt_def store_frame_def print_def Let_def

text \<open>
  Claim C3. A frame with non-empty data is START when the high nibble of its first byte is
  \<open>0xA\<close>; otherwise CONTINUATION when that nibble is \<open>0x1\<close>; otherwise HEARTBEAT when the
  identifier starts with \<open>01111\<close> and every data byte is zero; otherwise UNACCOUNTED.
  Setting one byte of a heartbeat frame to a non-zero value makes the frame UNACCOUNTED,
  unless the byte is the first one and the new value carries a START or CONTINUATION
  nibble.
\<close>

theorem classify_rule:
  assumes "Data frame \<noteq> []"
  shows "classify frame = Some
      (if hd (Data frame) AND 0xF0 = 0xA0 then (''START'', True, False)
       else if hd (Data frame) AND 0xF0 = 0x10 then (''CONT'', True, False)
       else if prefix ''01111'' (ID frame) \<and> (\<forall>b \<in> set (Data frame). b = 0)
            then (''HEARTBEAT'', False, True)
       else (''UNACCOUNTED'', False, False))
   \<and> (\<forall>i v. classify frame = Some (''HEARTBEAT'', False, True) \<and> i < length (Data frame)
          \<and> v \<noteq> 0 \<and> \<not> (i = 0 \<and> (v AND 0xF0 = 0xA0 \<or> v AND 0xF0 = 0x10))
        \<longrightarrow> classify (frame\<lparr>Data := (Data frame)[i := v]\<rparr>)
              = Some (''UNACCOUNTED'', False, False))"
proof (intro conjI allI impI)
  from assms obtain h t where d: "Data frame = h # t" by (cases "Data frame") auto
  show "classify frame = Some
      (if hd (Data frame) AND 0xF0 = 0xA0 then (''START'', True, False)
       else if hd (Data frame) AND 0xF0 = 0x10 then (''CONT'', True, False)
       else if prefix ''01111'' (ID frame) \<and> (\<forall>b \<in> set (Data frame). b = 0)
            then (''HEARTBEAT'', False, True)
       else (''UNACCOUNTED'', False, False))"
    by (simp add: classify_def d isStartFrame_def isContinuation_def checkIfHeartbeat_iff)
next
  fix i :: nat and v :: byte
  assume a: "classify frame = Some (''HEARTBEAT'', False, True) \<and> i < length (Data frame)
          \<and> v \<noteq> 0 \<and> \<not> (i = 0 \<and> (v AND 0xF0 = 0xA0 \<or> v AND 0xF0 = 0x10))"
  from assms obtain h t where d: "Data frame = h # t" by (cases "Data frame") auto
  from a have hb: "checkIfHeartbeat frame"
    by (auto simp: classify_def d split: if_splits)
  then have z: "\<forall>b \<in> set (Data frame). b = 0"
    by (simp add: checkIfHeartbeat_iff)
  from z d have h0: "h = 0" by simp
  let ?f = "frame\<lparr>Data := (Data frame)[i := v]\<rparr>"
  from a have iv: "i < length (Data frame)" "v \<noteq> 0" by simp_all
  then have "v \<in> set (Data ?f)" by (simp add: set_update_memI)
  with iv have nh: "\<not> checkIfHeartbeat ?f" by (auto simp: checkIfHeartbeat_iff)
  show "classify ?f = Some (''UNACCOUNTED'', False, False)"
  proof (cases i)
    case 0
    with a have "\<not> isStartFrame v" "\<not> isContinuation v"
      by (simp_all add: isStartFrame_def isContinuation_def)
    with 0 nh show ?thesis
      by (simp add: classify_def d)
  next
    case (Suc j)
    with nh show ?thesis
      by (simp add: classify_def d h0 isStartFrame_def isContinuation_def)
  qed
qed

text \<open>
  Claim C3 at a heartbeat frame with three zero bytes, and at the same frame with its
  second byte set to 5.
\<close>

theorem classify_rule_witness:
  "Data hb_frame \<noteq> [] \<and> classify hb_frame = Some (''HEARTBEAT'', False, True)
   \<and> classify (hb_frame\<lparr>Data := (Data hb_frame)[1 := 5]\<rparr>) = Some (''UNACCOUNTED'', False, False)"
proof -
  have ne: "Data hb_frame \<noteq> []" by (simp add: hb_frame_def)
  have hb: "classify hb_frame = Some (''HEARTBEAT'', False, True)"
    by (simp add: classify_def hb_frame_def isStartFrame_def isContinuation_def
        checkIfHeartbeat_def)
  from classify_rule [OF ne, THEN conjunct2, rule_format, of 1 5] hb
  have "classify (hb_frame\<lparr>Data := (Data hb_frame)[1 := 5]\<rparr>)
      = Some (''UNACCOUNTED'', False, False)"
    by (simp add: hb_frame_def)
  with ne hb show ?thesis by simp
qed

text \<open>
  Claim C10. For every frame and either value of \<open>verbose\<close>, \<open>analyzeRawFrame\<close> reports a
  heartbeat exactly when \<open>checkIfHeartbeat\<close> does: the two hard-coded identifiers tested
  around the prefix case do not start with \<open>01111\<close>.
\<close>

theorem analyzeRawFrame_agrees_checkIfHeartbeat:
  "snd (analyzeRawFrame frame verbose) = checkIfHeartbeat frame"
  by (auto simp: analyzeRawFrame_def checkIfHeartbeat_def allZero_loop_iff noNonZero_iff)

section \<open>Properties of the reassembly loop\<close>

lemma classify_cbor_cases:
  assumes "classify frame = Some (ft, True, hb)"
  shows "Data frame \<noteq> [] \<and> \<not> hb \<and>
     ((isStartFrame (hd (Data frame)) \<and> ft = ''START'') \<or>
      (\<not> isStartFrame (hd (Data frame)) \<and> isContinuation (hd (Data frame)) \<and> ft = ''CONT''))"
  using assms by (auto simp: classify_def split: list.splits if_splits)

text \<open>An iteration on a START or CONTINUATION frame is the framing branch, then the decode attempt.\<close>

lemma loop_body_absorb:
  assumes "classify frame = Some (ft, True, hb)"
  shows "loop_body dec fl (frame, ts) s = decode_attempt dec fl (absorb fl (frame, ts) s)"
proof -
  from classify_cbor_cases [OF assms] have c:
    "\<not> hb" "(isStartFrame (hd (Data frame)) \<and> ft = ''START'') \<or>
      (\<not> isStartFrame (hd (Data frame)) \<and> isContinuation (hd (Data frame)) \<and> ft = ''CONT'')"
    by simp_all
  show ?thesis
  proof (cases "groupByID fl")
    case True
    with c assms show ?thesis
      by (auto simp: loop_body_def absorb_def decode_attempt_def grouped_branch_def Let_def)
  next
    case False
    with c assms show ?thesis
      by (auto simp: loop_body_def absorb_def decode_attempt_def Let_def)
  qed
qed

lemma loop_body_cbor:
  assumes "is_START x \<or> is_CONT x"
  shows "loop_body dec fl x s = decode_attempt dec fl (absorb fl x s)"
proof -
  obtain frame ts where x: "x = (frame, ts)" by (cases x)
  from assms x obtain ft where "classify frame = Some (ft, True, False)"
    by (auto simp: is_START_def is_CONT_def)
  from loop_body_absorb [OF this] x show ?thesis by simp
qed

lemma decode_attempt_fail:
  assumes "dec (cborBuffer s) = Inl err"
  shows "decode_attempt dec fl s = s"
  using assms by (simp add: decode_attempt_def decode_grouped_def try_decode_def)

lemma decode_attempt_empty:
  assumes "cborBuffer s = []"
  shows "decode_attempt dec fl s = s"
  using assms by (simp add: decode_attempt_def decode_grouped_def try_decode_def)

lemma decode_attempt_all:
  assumes "\<not> groupByID fl" "cborBuffer s \<noteq> []" "dec (cborBuffer s) = Inr (v, 0)"
  shows "cborBuffer (decode_attempt dec fl s) = []"
    and "stdout (decode_attempt dec fl s) = stdout s @
      [Complete (lastCanID s) (frameCount s) (length (cborBuffer s)) (cborBuffer s) v]"
    and "frameCount (decode_attempt dec fl s) = frameCount s"
  using assms by (simp_all add: decode_attempt_def try_decode_def print_def Let_def)

lemma decode_attempt_pending:
  assumes "encodes_exactly dec B v" "prefix (cborBuffer s) B" "cborBuffer s \<noteq> B"
  shows "decode_attempt dec fl s = s"
proof (cases "cborBuffer s = []")
  case True
  then show ?thesis by (rule decode_attempt_empty)
next
  case False
  with assms have "isl (dec (cborBuffer s))"
    by (simp add: encodes_exactly_def)
  then obtain e where "dec (cborBuffer s) = Inl e" by (cases "dec (cborBuffer s)") auto
  then show ?thesis by (rule decode_attempt_fail)
qed

lemma absorb_CONT:
  assumes "is_CONT c"
  shows "cborBuffer (absorb fl c s) = cborBuffer s @ stripped c"
    and "frameCount (absorb fl c s) = frameCount s + 1"
    and "lastCanID (absorb fl c s) = lastCanID s"
    and "filter is_Complete (stdout (absorb fl c s)) = filter is_Complete (stdout s)"
proof -
  obtain frame ts where x: "c = (frame, ts)" by (cases c)
  with assms have "classify frame = Some (''CONT'', True, False)" by (simp add: is_CONT_def)
  from classify_cbor_cases [OF this]
  have h: "\<not> isStartFrame (hd (Data frame))" "isContinuation (hd (Data frame))" by auto
  show "cborBuffer (absorb fl c s) = cborBuffer s @ stripped c"
    and "frameCount (absorb fl c s) = frameCount s + 1"
    and "lastCanID (absorb fl c s) = lastCanID s"
    and "filter is_Complete (stdout (absorb fl c s)) = filter is_Complete (stdout s)"
    using h by (simp_all add: x stripped_def absorb_def cont_branch_def absorb_grouped_def
        store_frame_def print_def Let_def)
qed

lemma absorb_START:
  assumes "is_START x"
  shows "cborBuffer (absorb fl x s) = stripped x"
    and "frameCount (absorb fl x s) = 1"
    and "lastCanID (absorb fl x s) = ID (fst x)"
    and "filter is_Complete (stdout (absorb fl x s)) = filter is_Complete (stdout s)"
proof -
  obtain frame ts where x: "x = (frame, ts)" by (cases x)
  with assms have "classify frame = Some (''START'', True, False)" by (simp add: is_START_def)
  from classify_cbor_cases [OF this]
  have h: "isStartFrame (hd (Data frame))" by auto
  show "cborBuffer (absorb fl x s) = stripped x"
    and "frameCount (absorb fl x s) = 1"
    and "lastCanID (absorb fl x s) = ID (fst x)"
    and "filter is_Complete (stdout (absorb fl x s)) = filter is_Complete (stdout s)"
    using h by (simp_all add: x stripped_def absorb_def start_branch_def absorb_grouped_def
        store_frame_def print_def Let_def)
qed

lemma run_append: "run dec fl (xs @ ys) s = run dec fl ys (run dec fl xs s)"
  by (induction xs arbitrary: s) simp_all

text \<open>
  CONTINUATION frames that end with a non-empty payload and complete the value: the
  decode attempts fail until the last frame, which emits the message.
\<close>

lemma run_CONTs_complete:
  assumes ng: "\<not> groupByID fl" and ee: "encodes_exactly dec B v"
  shows "\<lbrakk>\<forall>c \<in> set cs. is_CONT c; cs \<noteq> []; stripped (last cs) \<noteq> [];
          cborBuffer s @ concat (map stripped cs) = B\<rbrakk>
     \<Longrightarrow> cborBuffer (run dec fl cs s) = []
       \<and> frameCount (run dec fl cs s) = frameCount s + length cs
       \<and> filter is_Complete (stdout (run dec fl cs s)) = filter is_Complete (stdout s) @
           [Complete (lastCanID s) (frameCount s + length cs) (length B) B v]"
proof (induction cs arbitrary: s)
  case Nil
  then show ?case by simp
next
  case (Cons c cs)
  let ?a = "absorb fl c s"
  from Cons.prems have c: "is_CONT c" by simp
  have step: "loop_body dec fl c s = decode_attempt dec fl ?a"
    using c by (simp add: loop_body_cbor)
  note a = absorb_CONT [OF c, of fl s]
  show ?case
  proof (cases "cs = []")
    case True
    with Cons.prems a have buf: "cborBuffer ?a = B" by simp
    from ee have ne: "B \<noteq> []" and d: "dec B = Inr (v, 0)" by (simp_all add: encodes_exactly_def)
    from decode_attempt_all [OF ng, of ?a dec v] buf ne d a True step
    show ?thesis by simp
  next
    case False
    with Cons.prems have l: "stripped (last cs) \<noteq> []" by simp
    from False have "last cs \<in> set cs" by simp
    with l have rest: "concat (map stripped cs) \<noteq> []" by auto
    from Cons.prems a have eq: "cborBuffer ?a @ concat (map stripped cs) = B" by simp
    then have p: "prefix (cborBuffer ?a) B" by (metis prefixI)
    from eq rest have n: "cborBuffer ?a \<noteq> B" by auto
    from decode_attempt_pending [OF ee p n] step
    have lb: "loop_body dec fl c s = ?a" by simp
    from Cons.prems have "\<forall>c \<in> set cs. is_CONT c" by simp
    from Cons.IH [OF this False l eq] lb a show ?thesis by simp
  qed
qed

text \<open>CONTINUATION frames without payload bytes on an empty buffer only count frames.\<close>

lemma run_empty_CONTs:
  "\<lbrakk>\<forall>c \<in> set cs. is_CONT c \<and> stripped c = []; cborBuffer s = []\<rbrakk>
     \<Longrightarrow> cborBuffer (run dec fl cs s) = []
       \<and> frameCount (run dec fl cs s) = frameCount s + length cs
       \<and> filter is_Complete (stdout (run dec fl cs s)) = filter is_Complete (stdout s)"
proof (induction cs arbitrary: s)
  case Nil
  then show ?case by simp
next
  case (Cons c cs)
  from Cons.prems have c: "is_CONT c" and e: "stripped c = []" by simp_all
  note a = absorb_CONT [OF c, of fl s]
  from a e Cons.prems have b: "cborBuffer (absorb fl c s) = []" by simp
  then have lb: "loop_body dec fl c s = absorb fl c s"
    using c by (simp add: loop_body_cbor decode_attempt_empty)
  from Cons.prems have "\<forall>c \<in> set cs. is_CONT c \<and> stripped c = []" by simp
  from Cons.IH [OF this b] lb a show ?case by simp
qed

lemma split_carrying:
  obtains cs1 cs2 where "cs = cs1 @ cs2" "\<forall>c \<in> set cs2. stripped c = []"
    "cs1 \<noteq> [] \<longrightarrow> stripped (last cs1) \<noteq> []" "length cs1 = last_carrying cs"
proof
  let ?P = "\<lambda>c. stripped c = []"
  let ?cs1 = "rev (dropWhile ?P (rev cs))" and ?cs2 = "rev (takeWhile ?P (rev cs))"
  show "cs = ?cs1 @ ?cs2"
    by (metis rev_append rev_rev_ident takeWhile_dropWhile_id)
  show "\<forall>c \<in> set ?cs2. stripped c = []"
    by (auto dest: set_takeWhileD)
  show "?cs1 \<noteq> [] \<longrightarrow> stripped (last ?cs1) \<noteq> []"
    using hd_dropWhile [of ?P "rev cs"] by (auto simp: last_rev)
  show "length ?cs1 = last_carrying cs" by (simp add: last_carrying_def)
qed

text \<open>
  Claim C1, as stated, at the input START \<open>A0 01\<close>, CONTINUATION \<open>10\<close>: the stripped
  payloads are the one value \<open>01\<close>, the continuation count is 1, and the one message is
  announced with frame count 1, not 2.
\<close>

theorem trailing_empty_continuation_counterexample:
  "is_START (start_01, Num 0) \<and> is_CONT (cont_empty, Num 0)
   \<and> encodes_exactly uint_codec
       (stripped (start_01, Num 0) @ concat (map stripped [(cont_empty, Num 0)])) 1
   \<and> filter is_Complete
       (stdout (run uint_codec show_all [(start_01, Num 0), (cont_empty, Num 0)] start_state))
        = [Complete ''123'' 1 1 [0x01] 1]
   \<and> 1 + length [(cont_empty, Num 0)] = 2"
  by (simp add: is_START_def is_CONT_def encodes_exactly_def stripped_def ex_defs step_defs)

text \<open>
  Claim C1, amended. In the immediate display, for one START frame followed by
  CONTINUATION frames whose stripped payloads together are exactly one encoded value, the
  loop announces exactly one message, with the identifier of the START frame, the whole
  value, and a frame count of 1 plus the number of CONTINUATION frames up to and including
  the last one that carries a payload byte; the buffer is empty afterwards and the frame
  counter stands at 1 plus the number of CONTINUATION frames. When the last frame carries a
  payload byte, the announced frame count is 1 plus the number of CONTINUATION frames.
\<close>

theorem single_message_frame_count:
  assumes ng: "\<not> groupByID fl" and st: "is_START x" and cs: "\<forall>c \<in> set cs. is_CONT c"
    and ee: "encodes_exactly dec (stripped x @ concat (map stripped cs)) v"
  shows "cborBuffer (run dec fl (x # cs) s) = []
     \<and> filter is_Complete (stdout (run dec fl (x # cs) s)) = filter is_Complete (stdout s) @
         [Complete (ID (fst x)) (1 + last_carrying cs)
            (length (stripped x @ concat (map stripped cs)))
            (stripped x @ concat (map stripped cs)) v]
     \<and> frameCount (run dec fl (x # cs) s) = 1 + length cs
     \<and> (stripped (last (x # cs)) \<noteq> [] \<longrightarrow> last_carrying cs = length cs)"
proof -
  let ?B = "stripped x @ concat (map stripped cs)"
  let ?a = "absorb fl x s"
  obtain cs1 cs2 where sp: "cs = cs1 @ cs2" "\<forall>c \<in> set cs2. stripped c = []"
    "cs1 \<noteq> [] \<longrightarrow> stripped (last cs1) \<noteq> []" "length cs1 = last_carrying cs"
    by (rule split_carrying)
  from sp(2) have z: "concat (map stripped cs2) = []" by simp
  with sp(1) have B: "?B = stripped x @ concat (map stripped cs1)" by simp
  note a = absorb_START [OF st, of fl s]
  have step: "loop_body dec fl x s = decode_attempt dec fl ?a"
    using st by (simp add: loop_body_cbor)
  from cs sp(1) have c1: "\<forall>c \<in> set cs1. is_CONT c"
    and c2: "\<forall>c \<in> set cs2. is_CONT c \<and> stripped c = []" using sp(2) by auto
  let ?m = "run dec fl (x # cs1) s"
  have mid: "cborBuffer ?m = [] \<and> frameCount ?m = 1 + length cs1
     \<and> filter is_Complete (stdout ?m) = filter is_Complete (stdout s) @
         [Complete (ID (fst x)) (1 + length cs1) (length ?B) ?B v]"
  proof (cases "cs1 = []")
    case True
    with B a have buf: "cborBuffer ?a = ?B" by simp
    from ee have ne: "?B \<noteq> []" and d: "dec ?B = Inr (v, 0)"
      by (simp_all add: encodes_exactly_def)
    from decode_attempt_all [OF ng, of ?a dec v] buf ne d a True step
    show ?thesis by simp
  next
    case False
    with sp(3) have l: "stripped (last cs1) \<noteq> []" by simp
    from False have "last cs1 \<in> set cs1" by simp
    with l have rest: "concat (map stripped cs1) \<noteq> []" by auto
    from B a have eq: "cborBuffer ?a @ concat (map stripped cs1) = ?B" by simp
    then have p: "prefix (cborBuffer ?a) ?B" by (metis prefixI)
    from eq rest have n: "cborBuffer ?a \<noteq> ?B" by auto
    from decode_attempt_pending [OF ee p n] step
    have lb: "loop_body dec fl x s = ?a" by simp
    from run_CONTs_complete [OF ng ee c1 False l eq] lb a show ?thesis by simp
  qed
  have r: "run dec fl (x # cs) s = run dec fl cs2 ?m"
    using sp(1) run_append [of dec fl "x # cs1" cs2 s] by simp
  from mid have "cborBuffer ?m = []" by simp
  from run_empty_CONTs [OF c2 this, of dec fl] mid r sp(4)
  have main: "cborBuffer (run dec fl (x # cs) s) = []
     \<and> filter is_Complete (stdout (run dec fl (x # cs) s)) = filter is_Complete (stdout s) @
         [Complete (ID (fst x)) (1 + last_carrying cs) (length ?B) ?B v]
     \<and> frameCount (run dec fl (x # cs) s) = 1 + length cs"
    using sp(1) by simp
  have "stripped (last (x # cs)) \<noteq> [] \<longrightarrow> last_carrying cs = length cs"
    by (cases cs rule: rev_cases) (simp_all add: last_carrying_def)
  with main show ?thesis by simp
qed

text \<open>
  Claim C1, amended, at the input START \<open>A0 18\<close>, CONTINUATION \<open>10 2A\<close>, whose stripped
  payloads \<open>18 2A\<close> encode the integer 42: one message with frame count 2.
\<close>

theorem single_message_frame_count_witness:
  "\<not> groupByID show_all \<and> is_START (start_18, Num 0) \<and> is_CONT (cont_2A, Num 0)
   \<and> encodes_exactly uint_codec
       (stripped (start_18, Num 0) @ concat (map stripped [(cont_2A, Num 0)])) 42
   \<and> cborBuffer (run uint_codec show_all [(start_18, Num 0), (cont_2A, Num 0)] start_state) = []
   \<and> filter is_Complete
       (stdout (run uint_codec show_all [(start_18, Num 0), (cont_2A, Num 0)] start_state))
        = [Complete ''123'' 2 2 [0x18, 0x2A] 42]"
proof -
  have a: "\<not> groupByID show_all" by (simp add: show_all_def)
  have b: "is_START (start_18, Num 0)" by (simp add: is_START_def ex_defs step_defs)
  have c: "\<forall>c \<in> set [(cont_2A, Num 0)]. is_CONT c" by (simp add: is_CONT_def ex_defs step_defs)
  have d: "encodes_exactly uint_codec
      (stripped (start_18, Num 0) @ concat (map stripped [(cont_2A, Num 0)])) 42"
    by (simp add: encodes_exactly_def stripped_def ex_defs)
  have e: "last_carrying [(cont_2A, Num 0)] = 1" by (simp add: last_carrying_def stripped_def ex_defs)
  have f: "stripped (start_18, Num 0) @ concat (map stripped [(cont_2A, Num 0)]) = [0x18, 0x2A]"
    by (simp add: stripped_def ex_defs)
  have g: "ID (fst (start_18, Num 0)) = ''123''" by (simp add: ex_defs)
  have h: "stdout start_state = []" by (simp add: ex_defs)
  from single_message_frame_count [OF a b c d, of start_state] a b c d
  show ?thesis unfolding e f g h by simp
qed

text \<open>
  Claim C2, as stated, at a START frame that arrives with \<open>-group-by-id\<close> while the buffer
  holds one byte: the buffer is replaced and nothing is printed, so no discarded-byte
  count is reported.
\<close>

theorem grouped_start_discards_silently_counterexample:
  "classify start_18 = Some (''START'', True, False)
   \<and> cborBuffer busy_state = [0x18]
   \<and> stdout busy_state = []
   \<and> stdout (loop_body uint_codec grouping (start_18, Num 0) busy_state) = []"
  by (simp add: ex_defs step_defs)

text \<open>
  Claim C2, amended. An iteration on a START frame is the START branch followed by the
  decode attempt. When the buffer is not empty, the START branch leaves the buffer equal
  to the frame's data without its first byte and the frame count equal to 1, in both
  display modes. In the immediate display it prints exactly one warning, which carries the
  length and the content of the prior buffer; with \<open>-group-by-id\<close> it prints nothing.
\<close>

theorem start_discards_prior_buffer:
  assumes "classify frame = Some (''START'', True, False)"
    and "cborBuffer s \<noteq> []"
  shows "loop_body dec fl (frame, ts) s = decode_attempt dec fl (absorb fl (frame, ts) s)
     \<and> cborBuffer (absorb fl (frame, ts) s) = tl (Data frame)
     \<and> frameCount (absorb fl (frame, ts) s) = 1
     \<and> (\<not> groupByID fl \<longrightarrow>
          filter is_warning (stdout (absorb fl (frame, ts) s))
            = filter is_warning (stdout s) @ [Discarding (length (cborBuffer s)) (cborBuffer s)])
     \<and> (groupByID fl \<longrightarrow> stdout (absorb fl (frame, ts) s) = stdout s)"
proof -
  from classify_cbor_cases [OF assms(1)] have st: "isStartFrame (hd (Data frame))" by auto
  show ?thesis
    using st assms(2)
    by (simp add: loop_body_absorb [OF assms(1)] absorb_def start_branch_def absorb_grouped_def
        store_frame_def print_def Let_def)
qed

text \<open>
  Claim C2, amended, at the START frame \<open>A0 18\<close> arriving in the immediate display while the
  buffer holds the byte \<open>18\<close>.
\<close>

theorem start_discards_prior_buffer_witness:
  "classify start_18 = Some (''START'', True, False) \<and> cborBuffer busy_state \<noteq> []
   \<and> cborBuffer (absorb show_all (start_18, Num 0) busy_state) = [0x18]
   \<and> filter is_warning (stdout (absorb show_all (start_18, Num 0) busy_state))
       = [Discarding 1 [0x18]]"
proof -
  have a: "classify start_18 = Some (''START'', True, False)" by (simp add: ex_defs step_defs)
  have b: "cborBuffer busy_state \<noteq> []" by (simp add: ex_defs)
  from start_discards_prior_buffer [OF a b, of uint_codec show_all "Num 0"] a b show ?thesis
    by (simp add: ex_defs)
qed

text \<open>
  Claim C4. For a START or CONTINUATION frame, in either display mode: when the codec
  reports an error on the buffer left by the framing branch, the iteration ends in exactly
  the state the framing branch produced (same buffer, same counters, nothing more
  printed), and the loop goes on with the next frame from that state.
\<close>

theorem decode_failure_retains_buffer:
  assumes "classify frame = Some (ft, True, hb)"
    and "dec (cborBuffer (absorb fl (frame, ts) s)) = Inl err"
  shows "loop_body dec fl (frame, ts) s = absorb fl (frame, ts) s
     \<and> run dec fl ((frame, ts) # rest) s = run dec fl rest (absorb fl (frame, ts) s)"
  using assms(2) by (simp add: loop_body_absorb [OF assms(1)] decode_attempt_fail)

text \<open>
  Claim C4 at the START frame \<open>A0 18\<close>, whose payload \<open>18\<close> is the first byte of a two-byte
  value.
\<close>

theorem decode_failure_retains_buffer_witness:
  "classify start_18 = Some (''START'', True, False)
   \<and> uint_codec (cborBuffer (absorb show_all (start_18, Num 0) start_state)) = Inl UnexpectedEOF
   \<and> cborBuffer (loop_body uint_codec show_all (start_18, Num 0) start_state) = [0x18]
   \<and> stdout (loop_body uint_codec show_all (start_18, Num 0) start_state) =
        [PrintFrameHeader start_18 0xA0 ''START'', NewMessage [0x18]]"
proof -
  have a: "classify start_18 = Some (''START'', True, False)" by (simp add: ex_defs step_defs)
  have b: "uint_codec (cborBuffer (absorb show_all (start_18, Num 0) start_state))
      = Inl UnexpectedEOF"
    by (simp add: ex_defs step_defs)
  from decode_failure_retains_buffer
    [where dec = uint_codec and fl = show_all and s = start_state, OF a b] a b
  show ?thesis by (simp add: ex_defs step_defs)
qed

text \<open>
  Claim C5, as stated, at the START frame \<open>A0 FF\<close>, on whose payload the codec reports a
  malformed value: the buffer still holds \<open>FF\<close> after the iteration, and the output is the
  frame header and the new-message line only.
\<close>

theorem malformed_buffer_counterexample:
  "classify start_FF = Some (''START'', True, False)
   \<and> uint_codec [0xFF] = Inl Malformed
   \<and> cborBuffer (loop_body uint_codec show_all (start_FF, Num 0) start_state) = [0xFF]
   \<and> stdout (loop_body uint_codec show_all (start_FF, Num 0) start_state)
       = [PrintFrameHeader start_FF 0xA0 ''START'', NewMessage [0xFF]]"
  by (simp add: ex_defs step_defs)

text \<open>
  Claim C5, amended. When the codec reports an error of any kind, a malformed value
  included, on the buffer left by the framing branch of a START or CONTINUATION frame, the
  iteration ends in exactly the state the framing branch produced: the buffer is kept and
  nothing is printed about the error. A CONTINUATION frame that follows appends to the
  kept bytes, and its iteration is the decode attempt on the state that holds them, so
  they are offered to the codec again.
\<close>

theorem malformed_buffer_is_kept:
  assumes "classify frame = Some (ft, True, hb)"
    and "dec (cborBuffer (absorb fl (frame, ts) s)) = Inl err"
    and "classify c = Some (''CONT'', True, False)"
  shows "loop_body dec fl (frame, ts) s = absorb fl (frame, ts) s
     \<and> cborBuffer (absorb fl (c, tc) (loop_body dec fl (frame, ts) s))
         = cborBuffer (absorb fl (frame, ts) s) @ tl (Data c)
     \<and> loop_body dec fl (c, tc) (loop_body dec fl (frame, ts) s)
         = decode_attempt dec fl (absorb fl (c, tc) (loop_body dec fl (frame, ts) s))"
proof -
  have 1: "loop_body dec fl (frame, ts) s = absorb fl (frame, ts) s"
    using assms(2) by (simp add: loop_body_absorb [OF assms(1)] decode_attempt_fail)
  from classify_cbor_cases [OF assms(3)]
  have "\<not> isStartFrame (hd (Data c))" "isContinuation (hd (Data c))" by auto
  then have "cborBuffer (absorb fl (c, tc) (absorb fl (frame, ts) s))
      = cborBuffer (absorb fl (frame, ts) s) @ tl (Data c)"
    by (simp add: absorb_def [of fl "(c, tc)"] cont_branch_def absorb_grouped_def
        store_frame_def print_def Let_def)
  with 1 loop_body_absorb [OF assms(3), of dec fl tc "loop_body dec fl (frame, ts) s"]
  show ?thesis by simp
qed

text \<open>
  Claim C5, amended, at the START frame \<open>A0 FF\<close> followed by the CONTINUATION frame
  \<open>10 2A\<close>.
\<close>

theorem malformed_buffer_is_kept_witness:
  "classify start_FF = Some (''START'', True, False)
   \<and> uint_codec (cborBuffer (absorb show_all (start_FF, Num 0) start_state)) = Inl Malformed
   \<and> classify cont_2A = Some (''CONT'', True, False)
   \<and> cborBuffer (absorb show_all (cont_2A, Num 0)
        (loop_body uint_codec show_all (start_FF, Num 0) start_state)) = [0xFF, 0x2A]"
proof -
  have a: "classify start_FF = Some (''START'', True, False)" by (simp add: ex_defs step_defs)
  have b: "uint_codec (cborBuffer (absorb show_all (start_FF, Num 0) start_state)) = Inl Malformed"
    by (simp add: ex_defs step_defs)
  have c: "classify cont_2A = Some (''CONT'', True, False)" by (simp add: ex_defs step_defs)
  have d: "cborBuffer (absorb show_all (start_FF, Num 0) start_state) = [0xFF]"
    by (simp add: ex_defs step_defs)
  have e: "tl (Data cont_2A) = [0x2A]" by (simp add: cont_2A_def mk_frame_def)
  from malformed_buffer_is_kept
    [where dec = uint_codec and fl = show_all and s = start_state and tc = "Num 0",
      OF a b c, THEN conjunct2, THEN conjunct1] a b c
  show ?thesis by (simp only: d e append_Cons append_Nil simp_thms)
qed

text \<open>
  Claim C6, as stated, at the CONTINUATION frame \<open>10 18\<close> arriving first, on the empty
  buffer of the initial state: the byte \<open>18\<close> is an incomplete value, so the output of the
  iteration is the frame header and the ordinary frame-appended line, and no warning.
\<close>

theorem orphan_continuation_counterexample:
  "classify cont_18 = Some (''CONT'', True, False)
   \<and> cborBuffer start_state = []
   \<and> uint_codec [0x18] = Inl UnexpectedEOF
   \<and> cborBuffer (loop_body uint_codec show_all (cont_18, Num 0) start_state) = [0x18]
   \<and> stdout (loop_body uint_codec show_all (cont_18, Num 0) start_state)
       = [PrintFrameHeader cont_18 0x10 ''CONT'', Appended 1 [0x18] 1]
   \<and> filter is_warning (stdout (loop_body uint_codec show_all (cont_18, Num 0) start_state)) = []"
  by (simp add: ex_defs step_defs)

text \<open>
  Claim C6, amended. A CONTINUATION frame that arrives on an empty buffer does not fail:
  its CONTINUATION branch leaves the buffer equal to the frame's data without its first
  byte and adds 1 to the frame count, and the decode attempt follows. The branch prints
  what it prints for every CONTINUATION frame (the frame header, if shown, and the
  frame-appended line) in the immediate display, and nothing with \<open>-group-by-id\<close>.
\<close>

theorem orphan_continuation_appends:
  assumes "classify frame = Some (''CONT'', True, False)"
    and "cborBuffer s = []"
  shows "loop_body dec fl (frame, ts) s = decode_attempt dec fl (absorb fl (frame, ts) s)
     \<and> cborBuffer (absorb fl (frame, ts) s) = tl (Data frame)
     \<and> frameCount (absorb fl (frame, ts) s) = frameCount s + 1
     \<and> (groupByID fl \<longrightarrow> stdout (absorb fl (frame, ts) s) = stdout s)
     \<and> (\<not> groupByID fl \<longrightarrow> stdout (absorb fl (frame, ts) s) = stdout s @
          (if \<not> unaccountedOnly fl \<and> \<not> hideAccounted fl
           then [PrintFrameHeader frame (hd (Data frame)) ''CONT''] else [])
          @ [Appended (frameCount s + 1) (tl (Data frame)) (length (tl (Data frame)))])"
proof -
  from classify_cbor_cases [OF assms(1)]
  have "\<not> isStartFrame (hd (Data frame))" "isContinuation (hd (Data frame))" by auto
  then show ?thesis
    using assms(2)
    by (simp add: loop_body_absorb [OF assms(1)] absorb_def cont_branch_def absorb_grouped_def
        store_frame_def print_def Let_def)
qed

text \<open>Claim C6, amended, at the CONTINUATION frame \<open>10 2A\<close> arriving in the initial state.\<close>

theorem orphan_continuation_appends_witness:
  "classify cont_2A = Some (''CONT'', True, False) \<and> cborBuffer start_state = []
   \<and> cborBuffer (absorb show_all (cont_2A, Num 0) start_state) = [0x2A]
   \<and> stdout (absorb show_all (cont_2A, Num 0) start_state)
        = [PrintFrameHeader cont_2A 0x10 ''CONT'', Appended 1 [0x2A] 1]"
proof -
  have a: "classify cont_2A = Some (''CONT'', True, False)" by (simp add: ex_defs step_defs)
  have b: "cborBuffer start_state = []" by (simp add: ex_defs)
  from orphan_continuation_appends [OF a b, of uint_codec show_all "Num 0"] a b show ?thesis
    by (simp add: ex_defs)
qed

section \<open>Properties of the grouped display\<close>

lemma sink_mset: "mset (sink lt x ys) = add_mset x (mset ys)"
  by (induction ys) auto

lemma insertionSort_mset: "mset (insertionSort lt xs) = mset xs"
proof -
  have "mset (foldl (\<lambda>acc x. sink lt x acc) acc xs) = mset acc + mset xs" for acc
    by (induction xs arbitrary: acc) (auto simp: sink_mset)
  then show ?thesis by (simp add: insertionSort_def)
qed

lemma transitive_ordering_key:
  fixes key :: "'a \<Rightarrow> 'k :: linorder"
  assumes "\<And>a b. a \<in> A \<Longrightarrow> b \<in> A \<Longrightarrow> lt a b \<longleftrightarrow> key a < key b"
  shows "transitive_ordering lt A"
  unfolding transitive_ordering_def
proof (intro conjI ballI impI)
  fix a assume "a \<in> A"
  with assms [of a a] show "\<not> lt a a" by simp
next
  fix a b c assume "a \<in> A" "b \<in> A" "c \<in> A" "lt a b \<and> lt b c"
  with assms [of a b] assms [of b c] assms [of a c] show "lt a c" by auto
next
  fix a b c assume "a \<in> A" "b \<in> A" "c \<in> A" "\<not> lt a b \<and> \<not> lt b c"
  with assms [of a b] assms [of b c] assms [of a c] show "\<not> lt a c" by auto
qed

lemma sink_sorted:
  assumes o: "transitive_ordering lt A" and x: "x \<in> A"
  shows "set ys \<subseteq> A \<Longrightarrow> sorted_wrt (\<lambda>a b. \<not> lt a b) ys
    \<Longrightarrow> sorted_wrt (\<lambda>a b. \<not> lt a b) (sink lt x ys)"
proof (induction ys)
  case Nil
  then show ?case by simp
next
  case (Cons y ys)
  from Cons.prems have y: "y \<in> A" and ys: "set ys \<subseteq> A" by auto
  show ?case
  proof (cases "lt x y")
    case True
    have "\<not> lt y x"
    proof
      assume "lt y x"
      with True o x y have "lt x x" unfolding transitive_ordering_def by blast
      with o x show False unfolding transitive_ordering_def by blast
    qed
    moreover have "set (sink lt x ys) = insert x (set ys)"
      using sink_mset [of lt x ys] by (metis set_mset_add_mset_insert set_mset_mset)
    ultimately show ?thesis using True Cons by auto
  next
    case False
    have "\<not> lt x z" if "z \<in> set ys" for z
    proof -
      from that Cons.prems have "\<not> lt y z" and "z \<in> A" by auto
      with False o x y show ?thesis unfolding transitive_ordering_def by blast
    qed
    with False Cons.prems show ?thesis by auto
  qed
qed

lemma insertionSort_sorted:
  assumes o: "transitive_ordering lt (set xs)"
  shows "sorted_wrt (\<lambda>a b. \<not> lt b a) (insertionSort lt xs)"
proof -
  have "set acc \<subseteq> set xs \<Longrightarrow> set zs \<subseteq> set xs \<Longrightarrow> sorted_wrt (\<lambda>a b. \<not> lt a b) acc \<Longrightarrow>
      sorted_wrt (\<lambda>a b. \<not> lt a b) (foldl (\<lambda>acc x. sink lt x acc) acc zs)" for acc zs
  proof (induction zs arbitrary: acc)
    case Nil
    then show ?case by simp
  next
    case (Cons z zs)
    from Cons.prems have z: "z \<in> set xs" and zs: "set zs \<subseteq> set xs" by auto
    have s: "sorted_wrt (\<lambda>a b. \<not> lt a b) (sink lt z acc)"
      using o z Cons.prems(1) Cons.prems(3) by (rule sink_sorted)
    have "set (sink lt z acc) = insert z (set acc)"
      using sink_mset [of lt z acc] by (metis set_mset_add_mset_insert set_mset_mset)
    with z Cons.prems(1) have "set (sink lt z acc) \<subseteq> set xs" by simp
    from Cons.IH [OF this zs s] show ?case by simp
  qed
  from this [of "[]" xs] show ?thesis
    by (simp add: insertionSort_def sorted_wrt_rev)
qed

lemma insertionSort_slice_sorter: "slice_sorter insertionSort lt"
  unfolding slice_sorter_def
  by (intro allI conjI impI insertionSort_mset insertionSort_sorted)








text \<open>
  A permutation that is sorted by a key is the only one, when the keys are pairwise
  different.
\<close>

lemma sorted_perm_unique:
  assumes m: "mset xs = mset ys" and sx: "sorted (map f xs)" and sy: "sorted (map f ys)"
    and d: "distinct (map f ys)"
  shows "xs = ys"
proof -
  from m have mm: "mset (map f xs) = mset (map f ys)" by simp
  with d have dx: "distinct (map f xs)" by (metis mset_eq_imp_distinct_iff)
  from mm have "set (map f xs) = set (map f ys)" by (rule mset_eq_setD)
  with sx sy dx d have e: "map f xs = map f ys" by (metis sorted_distinct_set_unique)
  from m have "set xs = set ys" by (rule mset_eq_setD)
  moreover from d have "inj_on f (set ys)" by (simp add: distinct_map)
  ultimately have "inj_on f (set xs \<union> set ys)" by simp
  with e show ?thesis by (simp add: inj_on_map_eq_map)
qed


















section \<open>Properties of the comparison\<close>

lemma hexDigit_mem: "n < 16 \<Longrightarrow> hexDigit n \<in> set ''0123456789ABCDEF''"
  unfolding hexDigit_def by (rule nth_mem) simp

lemma hexDigit_inj: "m < 16 \<Longrightarrow> n < 16 \<Longrightarrow> hexDigit m = hexDigit n \<Longrightarrow> m = n"
proof -
  assume a: "m < 16" "n < 16" "hexDigit m = hexDigit n"
  have d: "distinct ''0123456789ABCDEF''" by simp
  have l: "length ''0123456789ABCDEF'' = 16" by simp
  from a d l show "m = n"
    unfolding hexDigit_def by (metis nth_eq_iff_index_eq)
qed

lemma unat_byte_bounds: "unat (b :: byte) div 16 < 16" "unat b mod 16 < 16"
proof -
  have "unat b < 2 ^ LENGTH(8)" by (rule unsigned_less)
  then have "unat b < 256" by simp
  then show "unat b div 16 < 16" by simp
  show "unat b mod 16 < 16" by simp
qed

lemma colon_notin_hexByte: "CHR '':'' \<notin> set (hexByte b)"
  using hexDigit_mem [OF unat_byte_bounds(1), of b] hexDigit_mem [OF unat_byte_bounds(2), of b]
  by (auto simp: hexByte_def)

lemma colon_notin_hexBytes: "CHR '':'' \<notin> set (hexBytes bs)"
  using colon_notin_hexByte by (auto simp: hexBytes_def)

lemma length_hexByte: "length (hexByte b) = 2"
  by (simp add: hexByte_def)

lemma hexByte_inj: "hexByte a = hexByte b \<Longrightarrow> a = b"
proof -
  assume "hexByte a = hexByte b"
  then have "hexDigit (unat a div 16) = hexDigit (unat b div 16)"
    and "hexDigit (unat a mod 16) = hexDigit (unat b mod 16)"
    by (simp_all add: hexByte_def)
  then have "unat a div 16 = unat b div 16" "unat a mod 16 = unat b mod 16"
    using unat_byte_bounds by (auto dest: hexDigit_inj [rotated 2])
  then have "unat a = unat b" by (metis div_mult_mod_eq)
  then show "a = b" by (rule unsigned_word_eqI)
qed

lemma hexBytes_inj: "hexBytes xs = hexBytes ys \<Longrightarrow> xs = ys"
proof (induction xs arbitrary: ys)
  case Nil
  then show ?case by (cases ys) (simp_all add: hexBytes_def hexByte_def)
next
  case (Cons x xs)
  show ?case
  proof (cases ys)
    case Nil
    with Cons.prems show ?thesis by (simp add: hexBytes_def hexByte_def)
  next
    case (Cons y ys')
    with Cons.prems have "hexByte x @ hexBytes xs = hexByte y @ hexBytes ys'"
      by (simp add: hexBytes_def)
    then have "hexByte x = hexByte y \<and> hexBytes xs = hexBytes ys'"
      by (simp add: length_hexByte)
    with Cons.IH Cons show ?thesis by (auto dest: hexByte_inj)
  qed
qed

lemma pattern_key_shape: "pattern_key f = key_of_shape (shape f)"
  by (simp add: pattern_key_def key_of_shape_def shape_def)

lemma suffix_after_colon:
  assumes "a @ c # d = a' @ c # d'" "c \<notin> set d" "c \<notin> set d'"
  shows "a = a' \<and> d = d'"
  using assms
proof (induction a arbitrary: a')
  case Nil
  then show ?case by (cases a') auto
next
  case (Cons x xs)
  then show ?case by (cases a') auto
qed

lemma key_of_shape_inj: "inj key_of_shape"
proof (rule injI)
  fix s t :: "string \<times> byte \<times> byte list"
  obtain i h d where s: "s = (i, h, d)" by (cases s)
  obtain i' h' d' where t: "t = (i', h', d')" by (cases t)
  assume "key_of_shape s = key_of_shape t"
  then have "(i @ '':'' @ hexByte h) @ CHR '':'' # hexBytes d
      = (i' @ '':'' @ hexByte h') @ CHR '':'' # hexBytes d'"
    by (simp add: key_of_shape_def s t)
  from suffix_after_colon [OF this colon_notin_hexBytes colon_notin_hexBytes]
  have 1: "i @ '':'' @ hexByte h = i' @ '':'' @ hexByte h'" and 2: "hexBytes d = hexBytes d'"
    by simp_all
  from 1 have "(i @ '':'') @ hexByte h = (i' @ '':'') @ hexByte h'" by simp
  then have "i @ '':'' = i' @ '':'' \<and> hexByte h = hexByte h'"
    by (subst (asm) append_eq_append_conv) (simp_all add: length_hexByte)
  with 2 show "s = t"
    by (auto simp: s t dest: hexByte_inj hexBytes_inj)
qed

lemma pattern_key_eq_fields:
  assumes "pattern_key f = pattern_key g"
  shows "ID (Frame f) = ID (Frame g)" "Header f = Header g" "Data (Frame f) = Data (Frame g)"
proof -
  from assms have "key_of_shape (shape f) = key_of_shape (shape g)"
    by (simp add: pattern_key_shape)
  then have "shape f = shape g" using key_of_shape_inj by (simp add: inj_eq)
  then show "ID (Frame f) = ID (Frame g)" "Header f = Header g" "Data (Frame f) = Data (Frame g)"
    by (simp_all add: shape_def)
qed

lemma add_frame_alt:
  "add_frame fn m f =
     (if IsCBOR f \<or> IsHeartbeat f then m
      else m(pattern_key f \<mapsto> bump fn (entry m f)))"
  unfolding add_frame_def Let_def bump_def new_pattern_def entry_def by simp

lemma bump_commute: "bump a (bump b p) = bump b (bump a p)"
proof (cases "a = b")
  case True
  then show ?thesis by simp
next
  case False
  then show ?thesis by (simp add: bump_def fun_upd_twist)
qed

lemma new_pattern_key: "pattern_key f = pattern_key g \<Longrightarrow> new_pattern f = new_pattern g"
  using pattern_key_eq_fields [of f g] by (simp add: new_pattern_def)

lemma entry_upd_same:
  "pattern_key f = pattern_key g \<Longrightarrow> entry (m(pattern_key g \<mapsto> p)) f = p"
  by (simp add: entry_def)

lemma entry_upd_other:
  "pattern_key f \<noteq> pattern_key g \<Longrightarrow> entry (m(pattern_key g \<mapsto> p)) f = entry m f"
  by (simp add: entry_def)

lemma entry_upd_self: "entry (m(pattern_key g \<mapsto> p)) g = p"
  by (simp add: entry_def)

lemma entry_key: "pattern_key f = pattern_key g \<Longrightarrow> entry m f = entry m g"
  using new_pattern_key [of f g] by (simp add: entry_def split: option.splits)

lemma add_frame_commute:
  "add_frame a (add_frame b m g) f = add_frame b (add_frame a m f) g"
proof (cases "IsCBOR f \<or> IsHeartbeat f \<or> IsCBOR g \<or> IsHeartbeat g")
  case True
  then show ?thesis by (auto simp: add_frame_alt)
next
  case False
  then have uf: "\<not> (IsCBOR f \<or> IsHeartbeat f)" and ug: "\<not> (IsCBOR g \<or> IsHeartbeat g)"
    by auto
  show ?thesis
  proof (cases "pattern_key f = pattern_key g")
    case True
    have "add_frame a (add_frame b m g) f
        = m(pattern_key g \<mapsto> bump a (bump b (entry m g)))"
      using uf ug True by (simp add: add_frame_alt entry_upd_self entry_upd_same)
    also have "\<dots> = m(pattern_key g \<mapsto> bump b (bump a (entry m f)))"
      by (simp add: bump_commute entry_key [OF True])
    also have "\<dots> = add_frame b (add_frame a m f) g"
      using uf ug True by (simp add: add_frame_alt entry_upd_self entry_upd_same)
    finally show ?thesis .
  next
    case False
    have "add_frame a (add_frame b m g) f
        = m(pattern_key g \<mapsto> bump b (entry m g), pattern_key f \<mapsto> bump a (entry m f))"
      using uf ug False by (simp add: add_frame_alt entry_upd_other)
    also have "\<dots> = m(pattern_key f \<mapsto> bump a (entry m f), pattern_key g \<mapsto> bump b (entry m g))"
      using False by (simp add: fun_upd_twist)
    also have "\<dots> = add_frame b (add_frame a m f) g"
      using uf ug False by (simp add: add_frame_alt entry_upd_other [OF False [symmetric]])
    finally show ?thesis .
  qed
qed

lemma foldl_add_frame_commute:
  "foldl (add_frame a) (add_frame b m g) fs = add_frame b (foldl (add_frame a) m fs) g"
proof (induction fs arbitrary: m)
  case Nil
  then show ?case by simp
next
  case (Cons x fs)
  have "foldl (add_frame a) (add_frame b m g) (x # fs)
      = foldl (add_frame a) (add_frame a (add_frame b m g) x) fs" by simp
  also have "\<dots> = foldl (add_frame a) (add_frame b (add_frame a m x) g) fs"
    by (simp only: add_frame_commute [of a b m g x])
  also have "\<dots> = add_frame b (foldl (add_frame a) (add_frame a m x) fs) g"
    by (rule Cons.IH)
  finally show ?case by simp
qed

lemma foldl_add_frame_commute2:
  "foldl (add_frame a) (foldl (add_frame b) m gs) fs
     = foldl (add_frame b) (foldl (add_frame a) m fs) gs"
proof (induction gs arbitrary: m)
  case Nil
  then show ?case by simp
next
  case (Cons g gs)
  have "foldl (add_frame a) (foldl (add_frame b) m (g # gs)) fs
      = foldl (add_frame a) (foldl (add_frame b) (add_frame b m g) gs) fs" by simp
  also have "\<dots> = foldl (add_frame b) (foldl (add_frame a) (add_frame b m g) fs) gs"
    by (rule Cons.IH)
  also have "\<dots> = foldl (add_frame b) (add_frame b (foldl (add_frame a) m fs) g) gs"
    by (simp only: foldl_add_frame_commute)
  finally show ?case by simp
qed

lemma add_file_commute: "add_file ff a \<circ> add_file ff b = add_file ff b \<circ> add_file ff a"
proof (rule ext)
  fix m
  show "(add_file ff a \<circ> add_file ff b) m = (add_file ff b \<circ> add_file ff a) m"
    unfolding add_file_def o_apply by (rule foldl_add_frame_commute2)
qed

lemma collect_patterns_fold:
  "collect_patterns ro ff = fold (add_file ff) (ro 0 (dom ff)) Map.empty"
proof -
  have "collect_patterns ro ff = foldl (\<lambda>m fn. add_file ff fn m) Map.empty (ro 0 (dom ff))"
    by (simp add: collect_patterns_def add_file_def)
  then show ?thesis by (simp only: foldl_conv_fold)
qed

lemma range_ok_mset:
  assumes "range_ok ro" "range_ok ro'" "finite K"
  shows "mset (ro i K) = mset (ro' j K)"
proof -
  from assms have "set (ro i K) = set (ro' j K)" "distinct (ro i K)" "distinct (ro' j K)"
    by (simp_all add: range_ok_def)
  then show ?thesis by (simp add: set_eq_iff_mset_eq_distinct)
qed

lemma collect_patterns_order:
  assumes "range_ok ro" "range_ok ro'" "finite (dom ff)"
  shows "collect_patterns ro ff = collect_patterns ro' ff"
proof -
  have "fold (add_file ff) (ro 0 (dom ff)) = fold (add_file ff) (ro' 0 (dom ff))"
  proof (rule fold_multiset_equiv)
    show "mset (ro 0 (dom ff)) = mset (ro' 0 (dom ff))" by (rule range_ok_mset [OF assms])
    show "add_file ff x \<circ> add_file ff y = add_file ff y \<circ> add_file ff x" for x y
      by (rule add_file_commute)
  qed
  then show ?thesis by (simp add: collect_patterns_fold)
qed

lemma dom_add_frame:
  "dom (add_frame fn m f) = (if unaccounted f then insert (pattern_key f) (dom m) else dom m)"
  by (simp add: add_frame_alt unaccounted_def)

lemma dom_foldl_add_frame:
  "dom (foldl (add_frame fn) m fs) = dom m \<union> pattern_key ` {f \<in> set fs. unaccounted f}"
  by (induction fs arbitrary: m) (auto simp: dom_add_frame)

lemma dom_fold_add_file:
  "dom (fold (add_file ff) fns m)
     = dom m \<union> pattern_key ` {f. \<exists>fn \<in> set fns. f \<in> set (frames_of ff fn) \<and> unaccounted f}"
proof (induction fns arbitrary: m)
  case Nil
  then show ?case by simp
next
  case (Cons fn fns)
  have "dom (add_file ff fn m) = dom m \<union> pattern_key ` {f \<in> set (frames_of ff fn). unaccounted f}"
    by (simp add: add_file_def dom_foldl_add_frame)
  with Cons.IH [of "add_file ff fn m"] show ?case by auto
qed

lemma unaccounted_frames_alt:
  "unaccounted_frames ff = {f. \<exists>fn \<in> dom ff. f \<in> set (frames_of ff fn) \<and> unaccounted f}"
proof -
  have "(\<exists>fn frames. ff fn = Some frames \<and> f \<in> set frames) \<longleftrightarrow>
      (\<exists>fn \<in> dom ff. f \<in> set (frames_of ff fn))" for f
  proof
    assume "\<exists>fn frames. ff fn = Some frames \<and> f \<in> set frames"
    then obtain fn frames where "ff fn = Some frames" "f \<in> set frames" by blast
    then have "fn \<in> dom ff" "f \<in> set (frames_of ff fn)" by (auto simp: frames_of_def)
    then show "\<exists>fn \<in> dom ff. f \<in> set (frames_of ff fn)" by blast
  next
    assume "\<exists>fn \<in> dom ff. f \<in> set (frames_of ff fn)"
    then obtain fn frames where "ff fn = Some frames" "f \<in> set (frames_of ff fn)" by blast
    then have "ff fn = Some frames \<and> f \<in> set frames" by (simp add: frames_of_def)
    then show "\<exists>fn frames. ff fn = Some frames \<and> f \<in> set frames" by blast
  qed
  then have "(\<exists>fn frames. ff fn = Some frames \<and> f \<in> set frames
        \<and> \<not> IsCBOR f \<and> \<not> IsHeartbeat f) \<longleftrightarrow>
      (\<exists>fn \<in> dom ff. f \<in> set (frames_of ff fn) \<and> unaccounted f)" for f
    unfolding unaccounted_def by blast
  then show ?thesis
    by (simp add: unaccounted_frames_def)
qed

lemma finite_unaccounted_frames:
  assumes "finite (dom ff)"
  shows "finite (unaccounted_frames ff)"
proof -
  have "unaccounted_frames ff \<subseteq> (\<Union>fn \<in> dom ff. set (frames_of ff fn))"
    by (auto simp: unaccounted_frames_alt)
  moreover from assms have "finite (\<Union>fn \<in> dom ff. set (frames_of ff fn))" by simp
  ultimately show ?thesis by (rule finite_subset)
qed

lemma dom_collect_patterns:
  assumes "range_ok ro" "finite (dom ff)"
  shows "dom (collect_patterns ro ff) = pattern_key ` unaccounted_frames ff"
proof -
  from assms have "set (ro 0 (dom ff)) = dom ff" by (simp add: range_ok_def)
  then show ?thesis
    by (simp add: collect_patterns_fold dom_fold_add_file unaccounted_frames_alt)
qed

lemma finite_dom_collect_patterns:
  assumes "range_ok ro" "finite (dom ff)"
  shows "finite (dom (collect_patterns ro ff))"
  using assms by (simp add: dom_collect_patterns finite_unaccounted_frames)

lemma card_dom_collect_patterns:
  assumes "range_ok ro" "finite (dom ff)"
  shows "card (dom (collect_patterns ro ff)) = card (shape ` unaccounted_frames ff)"
proof -
  have "pattern_key ` unaccounted_frames ff = key_of_shape ` (shape ` unaccounted_frames ff)"
    by (simp add: image_image pattern_key_shape)
  moreover have "card (key_of_shape ` (shape ` unaccounted_frames ff))
      = card (shape ` unaccounted_frames ff)"
    by (rule card_image) (rule inj_on_subset [OF key_of_shape_inj], simp)
  ultimately show ?thesis by (simp add: dom_collect_patterns [OF assms])
qed

lemma pattern_triple_bump: "pattern_triple (bump fn p) = pattern_triple p"
  by (simp add: bump_def pattern_triple_def)

lemma key_new_pattern: "key_of_triple (pattern_triple (new_pattern f)) = pattern_key f"
  by (simp add: key_of_triple_def pattern_triple_def new_pattern_def pattern_key_def)

lemma keyed_entry: "keyed m \<Longrightarrow> key_of_triple (pattern_triple (entry m f)) = pattern_key f"
  by (auto simp: entry_def keyed_def key_new_pattern split: option.splits)

lemma keyed_add_frame: "keyed m \<Longrightarrow> keyed (add_frame fn m f)"
proof -
  assume k: "keyed m"
  show "keyed (add_frame fn m f)"
  proof (cases "IsCBOR f \<or> IsHeartbeat f")
    case True
    with k show ?thesis by (simp add: add_frame_alt)
  next
    case False
    have "key_of_triple (pattern_triple (bump fn (entry m f))) = pattern_key f"
      by (simp add: pattern_triple_bump keyed_entry [OF k])
    with k False show ?thesis
      by (auto simp: add_frame_alt keyed_def)
  qed
qed

lemma keyed_foldl_add_frame: "keyed m \<Longrightarrow> keyed (foldl (add_frame fn) m fs)"
  by (induction fs arbitrary: m) (simp_all add: keyed_add_frame)

lemma keyed_fold_add_file: "keyed m \<Longrightarrow> keyed (fold (add_file ff) fns m)"
  by (induction fns arbitrary: m) (simp_all add: add_file_def keyed_foldl_add_frame)

lemma keyed_collect_patterns: "keyed (collect_patterns ro ff)"
proof -
  have "keyed Map.empty" by (simp add: keyed_def)
  then show ?thesis unfolding collect_patterns_fold by (rule keyed_fold_add_file)
qed

lemma pattern_list_map:
  assumes "range_ok ro" "finite (dom m)"
  shows "pattern_list ro m = map (\<lambda>k. the (m k)) (ro 2 (dom m))"
proof -
  from assms have "set (ro 2 (dom m)) = dom m" by (simp add: range_ok_def)
  then have "filter (\<lambda>k. m k \<noteq> None) (ro 2 (dom m)) = ro 2 (dom m)"
    by (auto simp: filter_id_conv)
  then show ?thesis by (simp add: pattern_list_def List.map_filter_def o_def)
qed

lemma set_pattern_list:
  assumes "range_ok ro" "finite (dom m)"
  shows "set (pattern_list ro m) = ran m"
proof -
  from assms have "set (ro 2 (dom m)) = dom m" by (simp add: range_ok_def)
  then show ?thesis
    by (auto simp: pattern_list_map [OF assms] ran_def dom_def image_iff) force
qed

lemma mset_pattern_list:
  assumes "range_ok ro" "range_ok ro'" "finite (dom m)"
  shows "mset (pattern_list ro m) = mset (pattern_list ro' m)"
proof -
  have "mset (ro 2 (dom m)) = mset (ro' 2 (dom m))" by (rule range_ok_mset [OF assms])
  then have "mset (map (\<lambda>k. the (m k)) (ro 2 (dom m))) = mset (map (\<lambda>k. the (m k)) (ro' 2 (dom m)))"
    by simp
  then show ?thesis
    by (simp add: pattern_list_map [OF assms(1,3)] pattern_list_map [OF assms(2,3)])
qed

lemma distinct_pattern_list:
  assumes "range_ok ro" "finite (dom m)" "keyed m"
  shows "distinct (map pattern_triple (pattern_list ro m))"
proof -
  from assms have s: "set (ro 2 (dom m)) = dom m" and d: "distinct (ro 2 (dom m))"
    by (simp_all add: range_ok_def)
  have "inj_on (\<lambda>k. pattern_triple (the (m k))) (dom m)"
  proof (rule inj_onI)
    fix k k'
    assume "k \<in> dom m" "k' \<in> dom m"
      and e: "pattern_triple (the (m k)) = pattern_triple (the (m k'))"
    then obtain p p' where p: "m k = Some p" "m k' = Some p'" by auto
    from e p have t: "pattern_triple p = pattern_triple p'" by simp
    from assms(3) p(1) have k1: "k = key_of_triple (pattern_triple p)"
      unfolding keyed_def by blast
    from assms(3) p(2) have k2: "k' = key_of_triple (pattern_triple p')"
      unfolding keyed_def by blast
    show "k = k'" by (subst k1, subst k2) (simp only: t)
  qed
  with s d show ?thesis
    by (simp add: pattern_list_map [OF assms(1,2)] distinct_map o_def)
qed

lemma range_singleton:
  assumes "range_ok ro"
  shows "ro i {a} = [a]"
proof -
  from assms have s: "set (ro i {a}) = {a}" and d: "distinct (ro i {a})"
    by (simp_all add: range_ok_def)
  show ?thesis
  proof (cases "ro i {a}")
    case Nil
    with s show ?thesis by simp
  next
    case (Cons x xs)
    with s d have "x = a" "set xs \<subseteq> {a}" "a \<notin> set xs" by auto
    then have "xs = []" by (cases xs) auto
    with Cons \<open>x = a\<close> show ?thesis by simp
  qed
qed

lemma categorize_one_cases:
  assumes "range_ok ro"
  shows "commonToAll (categorize_one ro n c p)
           = commonToAll c @ (if is_common n p then [p] else [])"
    and "partialFrames (categorize_one ro n c p)
           = partialFrames c @ (if is_partial n p then [p] else [])"
    and "unique_of (uniqueFrames (categorize_one ro n c p)) fn
           = unique_of (uniqueFrames c) fn @ (if unique_in n fn p then [p] else [])"
    and "dom (uniqueFrames (categorize_one ro n c p))
           = dom (uniqueFrames c) \<union> {fn. unique_in n fn p}"
proof -
  show "commonToAll (categorize_one ro n c p)
           = commonToAll c @ (if is_common n p then [p] else [])"
    by (simp add: categorize_one_def is_common_def)
  show "partialFrames (categorize_one ro n c p)
           = partialFrames c @ (if is_partial n p then [p] else [])"
    by (simp add: categorize_one_def is_partial_def)
  have u: "uniqueFrames (categorize_one ro n c p)
      = (uniqueFrames c)(a \<mapsto> unique_of (uniqueFrames c) a @ [p])"
    if "is_unique n p" "dom (Occurrences p) = {a}" for a
    using that by (simp add: categorize_one_def is_unique_def range_singleton [OF assms])
  have nu: "uniqueFrames (categorize_one ro n c p) = uniqueFrames c" if "\<not> is_unique n p"
    using that by (auto simp: categorize_one_def is_unique_def)
  show "unique_of (uniqueFrames (categorize_one ro n c p)) fn
           = unique_of (uniqueFrames c) fn @ (if unique_in n fn p then [p] else [])"
  proof (cases "is_unique n p")
    case True
    then have "card (dom (Occurrences p)) = 1" by (simp add: is_unique_def)
    then obtain a where a: "dom (Occurrences p) = {a}" by (rule card_1_singletonE)
    from u [OF True a] True a show ?thesis
      by (simp add: unique_of_def unique_in_def)
  next
    case False
    with nu show ?thesis by (simp add: unique_in_def)
  qed
  show "dom (uniqueFrames (categorize_one ro n c p))
           = dom (uniqueFrames c) \<union> {fn. unique_in n fn p}"
  proof (cases "is_unique n p")
    case True
    then have "card (dom (Occurrences p)) = 1" by (simp add: is_unique_def)
    then obtain a where a: "dom (Occurrences p) = {a}" by (rule card_1_singletonE)
    from u [OF True a] True a show ?thesis
      by (auto simp: unique_in_def)
  next
    case False
    with nu show ?thesis by (simp add: unique_in_def)
  qed
qed

lemma categorize_fold:
  assumes "range_ok ro"
  shows "commonToAll (foldl (categorize_one ro n) c ps)
           = commonToAll c @ filter (is_common n) ps"
    and "partialFrames (foldl (categorize_one ro n) c ps)
           = partialFrames c @ filter (is_partial n) ps"
    and "unique_of (uniqueFrames (foldl (categorize_one ro n) c ps)) fn
           = unique_of (uniqueFrames c) fn @ filter (unique_in n fn) ps"
    and "dom (uniqueFrames (foldl (categorize_one ro n) c ps))
           = dom (uniqueFrames c) \<union> {fn. \<exists>p \<in> set ps. unique_in n fn p}"
proof -
  note one = categorize_one_cases [OF assms]
  show "commonToAll (foldl (categorize_one ro n) c ps)
           = commonToAll c @ filter (is_common n) ps"
    by (induction ps arbitrary: c) (simp_all add: one)
  show "partialFrames (foldl (categorize_one ro n) c ps)
           = partialFrames c @ filter (is_partial n) ps"
    by (induction ps arbitrary: c) (simp_all add: one)
  show "unique_of (uniqueFrames (foldl (categorize_one ro n) c ps)) fn
           = unique_of (uniqueFrames c) fn @ filter (unique_in n fn) ps"
    by (induction ps arbitrary: c) (simp_all add: one)
  show "dom (uniqueFrames (foldl (categorize_one ro n) c ps))
           = dom (uniqueFrames c) \<union> {fn. \<exists>p \<in> set ps. unique_in n fn p}"
    by (induction ps arbitrary: c) (auto simp: one)
qed

lemma categorize_lists:
  assumes "range_ok ro"
  shows "commonToAll (categorize ro n m) = filter (is_common n) (pattern_list ro m)"
    and "partialFrames (categorize ro n m) = filter (is_partial n) (pattern_list ro m)"
    and "unique_of (uniqueFrames (categorize ro n m)) fn
           = filter (unique_in n fn) (pattern_list ro m)"
    and "dom (uniqueFrames (categorize ro n m))
           = {fn. \<exists>p \<in> set (pattern_list ro m). unique_in n fn p}"
proof -
  have e: "unique_of Map.empty fn = []" by (simp add: unique_of_def)
  show "commonToAll (categorize ro n m) = filter (is_common n) (pattern_list ro m)"
    and "partialFrames (categorize ro n m) = filter (is_partial n) (pattern_list ro m)"
    and "unique_of (uniqueFrames (categorize ro n m)) fn
           = filter (unique_in n fn) (pattern_list ro m)"
    and "dom (uniqueFrames (categorize ro n m))
           = {fn. \<exists>p \<in> set (pattern_list ro m). unique_in n fn p}"
    by (simp_all add: categorize_def categorize_fold [OF assms] e)
qed

lemma foldl_plus_sum_list:
  "foldl (\<lambda>total x. total + g x) a xs = a + sum_list (map g xs)"
  for a :: nat
  by (induction xs arbitrary: a) simp_all

lemma finite_unique_dom:
  "finite {fn. \<exists>p \<in> set ps. unique_in n fn p}"
proof -
  have "{fn. \<exists>p \<in> set ps. unique_in n fn p} = (\<Union>p \<in> set ps. {fn. unique_in n fn p})"
    by auto
  moreover have "finite {fn. unique_in n fn p}" for p
  proof (cases "is_unique n p")
    case True
    then have "card (dom (Occurrences p)) = 1" by (simp add: is_unique_def)
    then have "finite (dom (Occurrences p))" by (simp add: card_ge_0_finite)
    moreover have "{fn. unique_in n fn p} \<subseteq> dom (Occurrences p)"
      by (auto simp: unique_in_def)
    ultimately show ?thesis by (rule rev_finite_subset)
  next
    case False
    then show ?thesis by (simp add: unique_in_def)
  qed
  ultimately show ?thesis by simp
qed

lemma sum_unique_lists:
  assumes "finite F"
  shows "(\<And>p. p \<in> set ps \<Longrightarrow> is_unique n p \<Longrightarrow> \<exists>a \<in> F. dom (Occurrences p) = {a}) \<Longrightarrow>
     (\<Sum>fn \<in> F. length (filter (unique_in n fn) ps)) = length (filter (is_unique n) ps)"
proof (induction ps)
  case Nil
  then show ?case by simp
next
  case (Cons p ps)
  have ih: "(\<Sum>fn \<in> F. length (filter (unique_in n fn) ps)) = length (filter (is_unique n) ps)"
    by (rule Cons.IH) (simp add: Cons.prems)
  have split: "(\<Sum>fn \<in> F. length (filter (unique_in n fn) (p # ps)))
      = (\<Sum>fn \<in> F. if unique_in n fn p then 1 else 0)
        + (\<Sum>fn \<in> F. length (filter (unique_in n fn) ps))"
  proof -
    have "length (filter (unique_in n fn) (p # ps))
        = (if unique_in n fn p then 1 else 0) + length (filter (unique_in n fn) ps)" for fn
      by simp
    then show ?thesis by (simp only: sum.distrib)
  qed
  have one: "(\<Sum>fn \<in> F. if unique_in n fn p then 1 else 0) = (if is_unique n p then 1 else (0::nat))"
  proof (cases "is_unique n p")
    case True
    with Cons.prems [of p] obtain a where a: "a \<in> F" "dom (Occurrences p) = {a}" by auto
    with True have "unique_in n fn p \<longleftrightarrow> fn = a" for fn by (auto simp: unique_in_def)
    then have "(\<Sum>fn \<in> F. if unique_in n fn p then 1 else 0) = (\<Sum>fn \<in> F. if fn = a then 1 else (0::nat))"
      by simp
    also have "\<dots> = 1" using assms a(1) by (simp add: sum.delta)
    finally show ?thesis using True by simp
  next
    case False
    then show ?thesis by (simp add: unique_in_def)
  qed
  have "(\<Sum>fn \<in> F. length (filter (unique_in n fn) (p # ps)))
      = (if is_unique n p then 1 else 0) + length (filter (is_unique n) ps)"
    by (simp only: split one ih)
  then show ?case by simp
qed

lemma countUniqueFrames_length:
  assumes "range_ok ro"
  shows "countUniqueFrames ro (uniqueFrames (categorize ro n m))
           = length (filter (is_unique n) (pattern_list ro m))"
proof -
  let ?u = "uniqueFrames (categorize ro n m)" and ?ps = "pattern_list ro m"
  note c = categorize_lists [OF assms, of n m]
  have fin: "finite (dom ?u)" by (simp add: c(4) finite_unique_dom)
  with assms have s: "set (ro 4 (dom ?u)) = dom ?u" and d: "distinct (ro 4 (dom ?u))"
    by (simp_all add: range_ok_def)
  have "countUniqueFrames ro ?u = sum_list (map (\<lambda>fn. length (unique_of ?u fn)) (ro 4 (dom ?u)))"
    by (simp add: countUniqueFrames_def foldl_plus_sum_list)
  also have "\<dots> = (\<Sum>fn \<in> dom ?u. length (unique_of ?u fn))"
    using d s by (simp add: sum_list_distinct_conv_sum_set)
  also have "\<dots> = (\<Sum>fn \<in> dom ?u. length (filter (unique_in n fn) ?ps))"
    by (simp add: c(3))
  also have "\<dots> = length (filter (is_unique n) ?ps)"
  proof (rule sum_unique_lists [OF fin])
    fix p
    assume p: "p \<in> set ?ps" "is_unique n p"
    then have "card (dom (Occurrences p)) = 1" by (simp add: is_unique_def)
    then obtain a where a: "dom (Occurrences p) = {a}" by (rule card_1_singletonE)
    with p have "unique_in n a p" by (simp add: unique_in_def)
    with p(1) have "a \<in> dom ?u" unfolding c(4) by blast
    with a show "\<exists>a \<in> dom ?u. dom (Occurrences p) = {a}" by blast
  qed
  finally show ?thesis .
qed

lemma three_way_length:
  "length (filter (is_common n) ps) + length (filter (is_unique n) ps)
     + length (filter (is_partial n) ps) = length ps"
  by (induction ps) (auto simp: is_common_def is_unique_def is_partial_def)

lemma length_pattern_list:
  assumes "range_ok ro" "finite (dom m)"
  shows "length (pattern_list ro m) = card (dom m)"
proof -
  from assms have "set (ro 2 (dom m)) = dom m" "distinct (ro 2 (dom m))"
    by (simp_all add: range_ok_def)
  then have "length (ro 2 (dom m)) = card (dom m)" by (metis distinct_card)
  then show ?thesis by (simp add: pattern_list_map [OF assms])
qed

lemma filenames_sorted_list:
  assumes "range_ok ro" "finite K"
  shows "sort (ro i K) = sorted_list_of_set K"
proof -
  from assms have "set (ro i K) = K" "distinct (ro i K)" by (simp_all add: range_ok_def)
  then show ?thesis by (metis distinct_remdups_id sorted_list_of_set_sort_remdups)
qed

lemma length_filenames:
  assumes "range_ok ro" "finite K"
  shows "length (sort (ro i K)) = card K"
  using assms by (simp add: filenames_sorted_list)

lemma occ_add_frame:
  assumes "\<forall>p \<in> ran m. dom (Occurrences p) \<subseteq> F" and "fn \<in> F"
  shows "\<forall>p \<in> ran (add_frame fn m f). dom (Occurrences p) \<subseteq> F"
proof (cases "IsCBOR f \<or> IsHeartbeat f")
  case True
  with assms(1) show ?thesis by (simp add: add_frame_alt)
next
  case False
  have e: "dom (Occurrences (entry m f)) \<subseteq> F"
  proof (cases "m (pattern_key f)")
    case None
    then show ?thesis by (simp add: entry_def new_pattern_def)
  next
    case (Some q)
    then have "q \<in> ran m" by (auto simp: ran_def)
    with assms(1) Some show ?thesis by (simp add: entry_def)
  qed
  have "dom (Occurrences (bump fn (entry m f))) = insert fn (dom (Occurrences (entry m f)))"
    by (simp add: bump_def)
  with e assms(2) have b: "dom (Occurrences (bump fn (entry m f))) \<subseteq> F" by simp
  have "ran (m(pattern_key f \<mapsto> bump fn (entry m f)))
      \<subseteq> insert (bump fn (entry m f)) (ran m)"
    by (auto simp: ran_def split: if_splits)
  with b assms(1)
  have "\<forall>p \<in> ran (m(pattern_key f \<mapsto> bump fn (entry m f))). dom (Occurrences p) \<subseteq> F"
    by blast
  with False show ?thesis by (simp add: add_frame_alt)
qed

lemma occ_foldl_add_frame:
  assumes "fn \<in> F"
  shows "\<forall>p \<in> ran m. dom (Occurrences p) \<subseteq> F \<Longrightarrow>
    \<forall>p \<in> ran (foldl (add_frame fn) m fs). dom (Occurrences p) \<subseteq> F"
proof (induction fs arbitrary: m)
  case Nil
  then show ?case by simp
next
  case (Cons f fs)
  from Cons.prems assms have "\<forall>p \<in> ran (add_frame fn m f). dom (Occurrences p) \<subseteq> F"
    by (rule occ_add_frame)
  from Cons.IH [OF this] show ?case by simp
qed

lemma occ_fold_add_file:
  "set fns \<subseteq> F \<Longrightarrow> \<forall>p \<in> ran m. dom (Occurrences p) \<subseteq> F \<Longrightarrow>
    \<forall>p \<in> ran (fold (add_file ff) fns m). dom (Occurrences p) \<subseteq> F"
proof (induction fns arbitrary: m)
  case Nil
  then show ?case by simp
next
  case (Cons fn fns)
  from Cons.prems have fn: "fn \<in> F" and fns: "set fns \<subseteq> F" by auto
  from fn Cons.prems(2) have "\<forall>p \<in> ran (add_file ff fn m). dom (Occurrences p) \<subseteq> F"
    unfolding add_file_def by (rule occ_foldl_add_frame)
  from Cons.IH [OF fns this] show ?case by simp
qed

lemma occ_collect_patterns:
  assumes "range_ok ro" "finite (dom ff)"
  shows "\<forall>p \<in> ran (collect_patterns ro ff). dom (Occurrences p) \<subseteq> dom ff"
proof -
  from assms have "set (ro 0 (dom ff)) \<subseteq> dom ff" by (simp add: range_ok_def)
  then show ?thesis
    unfolding collect_patterns_fold by (rule occ_fold_add_file) simp
qed

lemma report_counts:
  "commonCount (CompareUnaccountedFrames ro sortSlice ff)
     = length (commonToAll (categorize ro (length (sort (ro 1 (dom ff)))) (collect_patterns ro ff)))"
  "uniqueCount (CompareUnaccountedFrames ro sortSlice ff)
     = countUniqueFrames ro
         (uniqueFrames (categorize ro (length (sort (ro 1 (dom ff)))) (collect_patterns ro ff)))"
  "partialCount (CompareUnaccountedFrames ro sortSlice ff)
     = length (partialFrames (categorize ro (length (sort (ro 1 (dom ff)))) (collect_patterns ro ff)))"
  "totalPatterns (CompareUnaccountedFrames ro sortSlice ff) = card (dom (collect_patterns ro ff))"
  by (simp_all add: CompareUnaccountedFrames_def Let_def)

text \<open>
  Claim C7. For every finite map of at least two sources and every order in which the
  \<open>range\<close> loops visit their maps, with \<open>n\<close> the number of sources: a collected pattern is
  in \<open>commonToAll\<close> exactly when its occurrence map has \<open>n\<close> keys, in one of the lists of
  \<open>uniqueFrames\<close> exactly when it has one key, and in \<open>partialFrames\<close> exactly when it has
  neither; the lists hold collected patterns only; the length of \<open>commonToAll\<close>, the count
  of \<open>countUniqueFrames\<close> and the length of \<open>partialFrames\<close> add up to the number of
  collected patterns, as do the numbers of the printed summary; every key of
  \<open>uniqueFrames\<close> is a source, so the sum over the sources of the lengths of their unique
  lists gives the same total; and that number is the number of distinct shapes
  (identifier, header, data) among the unaccounted frames of all sources.
\<close>

theorem categories_partition:
  assumes fin: "finite (dom fileFrames)" and two: "2 \<le> card (dom fileFrames)"
    and ro: "range_ok ro"
  shows "(let framePatterns = collect_patterns ro fileFrames;
              n = length (sort (ro 1 (dom fileFrames)));
              cats = categorize ro n framePatterns;
              r = CompareUnaccountedFrames ro sortSlice fileFrames
          in n = card (dom fileFrames)
           \<and> (\<forall>p \<in> ran framePatterns.
                 (p \<in> set (commonToAll cats) \<longleftrightarrow> card (dom (Occurrences p)) = n)
               \<and> ((\<exists>fn. p \<in> set (unique_of (uniqueFrames cats) fn))
                    \<longleftrightarrow> card (dom (Occurrences p)) = 1)
               \<and> (p \<in> set (partialFrames cats)
                    \<longleftrightarrow> card (dom (Occurrences p)) \<noteq> n \<and> card (dom (Occurrences p)) \<noteq> 1))
           \<and> set (commonToAll cats) \<union> (\<Union>fn. set (unique_of (uniqueFrames cats) fn))
                \<union> set (partialFrames cats) \<subseteq> ran framePatterns
           \<and> length (commonToAll cats) + countUniqueFrames ro (uniqueFrames cats)
                + length (partialFrames cats) = card (dom framePatterns)
           \<and> dom (uniqueFrames cats) \<subseteq> dom fileFrames
           \<and> length (commonToAll cats)
                + (\<Sum>fn \<in> dom fileFrames. length (unique_of (uniqueFrames cats) fn))
                + length (partialFrames cats) = card (dom framePatterns)
           \<and> commonCount r + uniqueCount r + partialCount r = totalPatterns r
           \<and> card (dom framePatterns) = card (shape ` unaccounted_frames fileFrames))"
proof -
  define m where "m = collect_patterns ro fileFrames"
  define n where "n = length (sort (ro 1 (dom fileFrames)))"
  define c where "c = categorize ro n m"
  define ps where "ps = pattern_list ro m"
  have n: "n = card (dom fileFrames)" unfolding n_def by (rule length_filenames [OF ro fin])
  have fm: "finite (dom m)" unfolding m_def by (rule finite_dom_collect_patterns [OF ro fin])
  have ps: "set ps = ran m" unfolding ps_def by (rule set_pattern_list [OF ro fm])
  note cl = categorize_lists [OF ro, of n m, folded c_def ps_def]
  from n two have n2: "n \<noteq> 1" by simp
  have members: "(p \<in> set (commonToAll c) \<longleftrightarrow> card (dom (Occurrences p)) = n)
       \<and> ((\<exists>fn. p \<in> set (unique_of (uniqueFrames c) fn)) \<longleftrightarrow> card (dom (Occurrences p)) = 1)
       \<and> (p \<in> set (partialFrames c)
            \<longleftrightarrow> card (dom (Occurrences p)) \<noteq> n \<and> card (dom (Occurrences p)) \<noteq> 1)"
    if p: "p \<in> ran m" for p
  proof -
    from p ps have in_ps: "p \<in> set ps" by simp
    have 1: "p \<in> set (commonToAll c) \<longleftrightarrow> card (dom (Occurrences p)) = n"
      using in_ps by (simp add: cl(1) is_common_def)
    have 3: "p \<in> set (partialFrames c)
        \<longleftrightarrow> card (dom (Occurrences p)) \<noteq> n \<and> card (dom (Occurrences p)) \<noteq> 1"
      using in_ps by (simp add: cl(2) is_partial_def)
    have "(\<exists>fn. unique_in n fn p) \<longleftrightarrow> card (dom (Occurrences p)) = 1"
    proof
      assume "\<exists>fn. unique_in n fn p"
      then show "card (dom (Occurrences p)) = 1" by (auto simp: unique_in_def is_unique_def)
    next
      assume one: "card (dom (Occurrences p)) = 1"
      then obtain a where "dom (Occurrences p) = {a}" by (rule card_1_singletonE)
      with one n2 have "unique_in n a p" by (simp add: unique_in_def is_unique_def)
      then show "\<exists>fn. unique_in n fn p" ..
    qed
    then have 2: "(\<exists>fn. p \<in> set (unique_of (uniqueFrames c) fn))
        \<longleftrightarrow> card (dom (Occurrences p)) = 1"
      using in_ps by (simp add: cl(3))
    from 1 2 3 show ?thesis by blast
  qed
  have sub: "set (commonToAll c) \<union> (\<Union>fn. set (unique_of (uniqueFrames c) fn))
                \<union> set (partialFrames c) \<subseteq> ran m"
    using ps by (auto simp: cl(1,2,3))
  have "countUniqueFrames ro (uniqueFrames c) = length (filter (is_unique n) ps)"
    unfolding c_def ps_def by (rule countUniqueFrames_length [OF ro])
  moreover have "length ps = card (dom m)"
    unfolding ps_def by (rule length_pattern_list [OF ro fm])
  ultimately have total: "length (commonToAll c) + countUniqueFrames ro (uniqueFrames c)
                + length (partialFrames c) = card (dom m)"
    using three_way_length [of n ps] by (simp add: cl(1,2))
  have occ: "\<forall>p \<in> set ps. dom (Occurrences p) \<subseteq> dom fileFrames"
    unfolding ps m_def by (rule occ_collect_patterns [OF ro fin])
  have udom: "dom (uniqueFrames c) \<subseteq> dom fileFrames"
    using occ by (auto simp: cl(4) unique_in_def)
  have "(\<Sum>fn \<in> dom fileFrames. length (filter (unique_in n fn) ps))
      = length (filter (is_unique n) ps)"
  proof (rule sum_unique_lists [OF fin])
    fix p
    assume p: "p \<in> set ps" "is_unique n p"
    then have "card (dom (Occurrences p)) = 1" by (simp add: is_unique_def)
    then obtain a where a: "dom (Occurrences p) = {a}" by (rule card_1_singletonE)
    with occ p(1) have "a \<in> dom fileFrames" by blast
    with a show "\<exists>a \<in> dom fileFrames. dom (Occurrences p) = {a}" by blast
  qed
  then have "(\<Sum>fn \<in> dom fileFrames. length (unique_of (uniqueFrames c) fn))
      = length (filter (is_unique n) ps)"
    by (simp add: cl(3))
  with \<open>length ps = card (dom m)\<close>
  have total': "length (commonToAll c)
                + (\<Sum>fn \<in> dom fileFrames. length (unique_of (uniqueFrames c) fn))
                + length (partialFrames c) = card (dom m)"
    using three_way_length [of n ps] by (simp add: cl(1,2))
  have shapes: "card (dom m) = card (shape ` unaccounted_frames fileFrames)"
    unfolding m_def by (rule card_dom_collect_patterns [OF ro fin])
  from n members sub total udom total' shapes show ?thesis
    unfolding Let_def report_counts m_def [symmetric] n_def [symmetric] c_def [symmetric]
    by blast
qed

lemma range_ok_sorted_range: "range_ok sorted_range"
  by (simp add: range_ok_def sorted_range_def)

lemma dom_sample: "dom sample_files = {''A.csv'', ''B.csv'', ''C.csv''}"
  by (auto simp: sample_files_def)

lemma sorted_sample: "sorted_list_of_set {''A.csv'', ''B.csv'', ''C.csv''} = [''A.csv'', ''B.csv'', ''C.csv'']"
proof -
  have "{''A.csv'', ''B.csv'', ''C.csv''} = set [''A.csv'', ''B.csv'', ''C.csv'']" by simp
  then have "sorted_list_of_set {''A.csv'', ''B.csv'', ''C.csv''}
      = sort (remdups [''A.csv'', ''B.csv'', ''C.csv''])"
    by (simp only: sorted_list_of_set_sort_remdups)
  then show ?thesis by simp
qed

lemma sample_range: "sorted_range i (dom sample_files) = [''A.csv'', ''B.csv'', ''C.csv'']"
  by (simp only: sorted_range_def dom_sample sorted_sample)

lemma hex50: "hexByte 0x50 = ''50''" "hexByte 0x51 = ''51''" "hexByte 0x01 = ''01''"
  by (simp_all add: hexByte_def hexDigit_def)

lemma sample_patterns:
  "collect_patterns sorted_range sample_files
     = [''100:50:50'' \<mapsto> pat100, ''200:51:5101'' \<mapsto> pat200]"
  unfolding collect_patterns_def sample_range
  by (simp add: frames_of_def sample_files_def add_frame_def Let_def pattern_key_def
      unaccounted_info_def heartbeat_info_def mk_frame_def hexBytes_def hex50 pat100_def pat200_def
      fun_upd_twist numeral_2_eq_2)

lemma sorted_keys: "sorted_list_of_set {''100:50:50'', ''200:51:5101''} = [''100:50:50'', ''200:51:5101'']"
proof -
  have "{''100:50:50'', ''200:51:5101''} = set [''100:50:50'', ''200:51:5101'']" by simp
  then have "sorted_list_of_set {''100:50:50'', ''200:51:5101''}
      = sort (remdups [''100:50:50'', ''200:51:5101''])"
    by (simp only: sorted_list_of_set_sort_remdups)
  then show ?thesis by simp
qed

lemma sample_pattern_list:
  "pattern_list sorted_range (collect_patterns sorted_range sample_files) = [pat100, pat200]"
proof -
  have "dom (collect_patterns sorted_range sample_files) = {''100:50:50'', ''200:51:5101''}"
    unfolding sample_patterns by auto
  then have "sorted_range 2 (dom (collect_patterns sorted_range sample_files))
      = [''100:50:50'', ''200:51:5101'']"
    by (simp only: sorted_range_def sorted_keys)
  then have "pattern_list sorted_range (collect_patterns sorted_range sample_files)
      = List.map_filter (collect_patterns sorted_range sample_files)
          [''100:50:50'', ''200:51:5101'']"
    by (simp only: pattern_list_def)
  then show ?thesis
    unfolding sample_patterns by (simp add: List.map_filter_def)
qed

lemma dom_occ: "dom (Occurrences pat100) = {''A.csv'', ''B.csv''}" "dom (Occurrences pat200) = {''A.csv''}"
  by (auto simp: pat100_def pat200_def)

lemma sample_cats:
  "categorize sorted_range 3 (collect_patterns sorted_range sample_files)
    = \<lparr>commonToAll = [], uniqueFrames = [''A.csv'' \<mapsto> [pat200]], partialFrames = [pat100]\<rparr>"
proof -
  have r: "sorted_range 3 {''A.csv''} = [''A.csv'']" by (simp add: sorted_range_def)
  show ?thesis
    unfolding categorize_def sample_pattern_list
    by (simp add: categorize_one_def dom_occ r unique_of_def)
qed

lemma sample_report:
  "CompareUnaccountedFrames sorted_range insertionSort sample_files =
     \<lparr>fileSummary = [(''A.csv'', 2, 2), (''B.csv'', 2, 2), (''C.csv'', 0, 1)],
      commonRows = [],
      uniqueSections = [(''A.csv'', [(''200'', 0x51, ''5101'', 1)])],
      partialRows = [(''100'', 0x50, ''50'', [(1, 1), (2, 2)])],
      totalPatterns = 2, commonCount = 0, uniqueCount = 1, partialCount = 1\<rparr>"
proof -
  have l: "length [''A.csv'', ''B.csv'', ''C.csv''] = 3" by simp
  have d: "dom [''A.csv'' \<mapsto> [pat200]] = {''A.csv''}" by auto
  have k: "card (dom (collect_patterns sorted_range sample_files)) = 2"
    unfolding sample_patterns by simp
  have u: "sorted_range 4 {''A.csv''} = [''A.csv'']" by (simp add: sorted_range_def)
  have s: "sort [''A.csv'', ''B.csv'', ''C.csv''] = [''A.csv'', ''B.csv'', ''C.csv'']" by simp
  show ?thesis
    unfolding CompareUnaccountedFrames_def Let_def sample_range s l sample_cats k
    by (simp add: frames_of_def sample_files_def unaccounted_info_def heartbeat_info_def
        sortFramesByID_def insertionSort_def unique_of_def occurrences_of_def presentIn_def
        pat100_def pat200_def countUniqueFrames_def d u enumerate_eq_zip)
qed

lemma patternLess_key: "\<not> patternLess b a \<longleftrightarrow> pattern_triple a \<le> pattern_triple b"
  by (auto simp: patternLess_def pattern_triple_def less_eq_prod_def)

lemma patternLess_ordering: "transitive_ordering patternLess A"
proof (rule transitive_ordering_key [where key = pattern_triple])
  fix a b
  from patternLess_key [where a = b and b = a]
  show "patternLess a b \<longleftrightarrow> pattern_triple a < pattern_triple b"
    by auto
qed

lemma sorter_props:
  assumes "slice_sorter sortSlice patternLess"
  shows "mset (sortFramesByID sortSlice xs) = mset xs"
    and "sorted (map pattern_triple (sortFramesByID sortSlice xs))"
proof -
  from assms show "mset (sortFramesByID sortSlice xs) = mset xs"
    by (simp add: slice_sorter_def sortFramesByID_def)
  have "transitive_ordering patternLess (set xs)" by (rule patternLess_ordering)
  with assms have "sorted_wrt (\<lambda>a b. \<not> patternLess b a) (sortFramesByID sortSlice xs)"
    by (simp add: slice_sorter_def sortFramesByID_def)
  then show "sorted (map pattern_triple (sortFramesByID sortSlice xs))"
    by (simp add: sorted_map patternLess_key)
qed

lemma sorted_filter_unique:
  assumes m: "mset ps = mset ps'" and d: "distinct (map pattern_triple ps')"
    and ss: "slice_sorter sortSlice patternLess" and ss': "slice_sorter sortSlice' patternLess"
  shows "sortFramesByID sortSlice (filter P ps) = sortFramesByID sortSlice' (filter P ps')"
proof (rule sorted_perm_unique [where f = pattern_triple])
  from m have mf: "mset (filter P ps) = mset (filter P ps')" by (metis mset_filter)
  then show "mset (sortFramesByID sortSlice (filter P ps))
      = mset (sortFramesByID sortSlice' (filter P ps'))"
    by (simp add: sorter_props(1) [OF ss] sorter_props(1) [OF ss'])
  show "sorted (map pattern_triple (sortFramesByID sortSlice (filter P ps)))"
    by (rule sorter_props(2) [OF ss])
  show "sorted (map pattern_triple (sortFramesByID sortSlice' (filter P ps')))"
    by (rule sorter_props(2) [OF ss'])
  from d have "distinct (map pattern_triple (filter P ps'))" by (rule distinct_map_filter)
  moreover have "mset (map pattern_triple (sortFramesByID sortSlice' (filter P ps')))
      = mset (map pattern_triple (filter P ps'))"
    by (simp add: sorter_props(1) [OF ss'])
  ultimately show "distinct (map pattern_triple (sortFramesByID sortSlice' (filter P ps')))"
    using mset_eq_imp_distinct_iff by blast
qed

lemma length_filter_mset:
  assumes "mset ps = mset ps'"
  shows "length (filter P ps) = length (filter P ps')"
proof -
  from assms have "mset (filter P ps) = mset (filter P ps')" by (metis mset_filter)
  then show ?thesis by (rule mset_eq_length)
qed

lemma Compare_report_of:
  assumes ro: "range_ok ro"
  shows "CompareUnaccountedFrames ro sortSlice ff =
     report_of sortSlice ff (sort (ro 1 (dom ff))) (card (dom (collect_patterns ro ff)))
       (pattern_list ro (collect_patterns ro ff)) (length (sort (ro 1 (dom ff))))"
proof -
  define m where "m = collect_patterns ro ff"
  define fns where "fns = sort (ro 1 (dom ff))"
  define n where "n = length fns"
  define c where "c = categorize ro n m"
  define ps where "ps = pattern_list ro m"
  note cl = categorize_lists [OF ro, of n m, folded c_def ps_def]
  have cu: "countUniqueFrames ro (uniqueFrames c) = length (filter (is_unique n) ps)"
    unfolding c_def ps_def by (rule countUniqueFrames_length [OF ro])
  have "CompareUnaccountedFrames ro sortSlice ff =
     \<lparr>fileSummary =
        map (\<lambda>fn. (fn, length (filter (\<lambda>f. \<not> IsCBOR f \<and> \<not> IsHeartbeat f) (frames_of ff fn)),
                   length (frames_of ff fn))) fns,
      commonRows =
        (if length (commonToAll c) > 0
         then map (\<lambda>p. (uf_ID p, uf_Header p, DataHex p, map (occurrences_of p) fns))
                (sortFramesByID sortSlice (commonToAll c))
         else []),
      uniqueSections =
        concat (map (\<lambda>fn.
            if length (unique_of (uniqueFrames c) fn) > 0
            then [(fn, map (\<lambda>p. (uf_ID p, uf_Header p, DataHex p, occurrences_of p fn))
                         (sortFramesByID sortSlice (unique_of (uniqueFrames c) fn)))]
            else [])
          fns),
      partialRows =
        (if length (partialFrames c) > 0
         then map (\<lambda>p. (uf_ID p, uf_Header p, DataHex p, presentIn p fns))
                (sortFramesByID sortSlice (partialFrames c))
         else []),
      totalPatterns = card (dom m),
      commonCount = length (commonToAll c),
      uniqueCount = countUniqueFrames ro (uniqueFrames c),
      partialCount = length (partialFrames c)\<rparr>"
    unfolding CompareUnaccountedFrames_def Let_def m_def fns_def n_def c_def ..
  also have "\<dots> = report_of sortSlice ff fns (card (dom m)) ps n"
    unfolding report_of_def cl(1,2,3) cu ..
  finally show ?thesis unfolding m_def fns_def n_def ps_def .
qed

lemma report_of_order:
  assumes m: "mset ps = mset ps'" and d: "distinct (map pattern_triple ps')"
    and ss: "slice_sorter sortSlice patternLess" and ss': "slice_sorter sortSlice' patternLess"
  shows "report_of sortSlice ff fns tot ps n = report_of sortSlice' ff fns tot ps' n"
proof -
  note e = sorted_filter_unique [OF m d ss ss']
  note l = length_filter_mset [OF m]
  show ?thesis by (simp only: report_of_def e l)
qed

lemma row_triple_rows:
  "row_triple \<circ> (\<lambda>p. (uf_ID p, uf_Header p, DataHex p, g p)) = pattern_triple"
  by (simp add: fun_eq_iff row_triple_def pattern_triple_def)

lemma report_of_sorted:
  assumes ss: "slice_sorter sortSlice patternLess" and fs: "sorted fns"
  shows "sorted (map row_triple (commonRows (report_of sortSlice ff fns tot ps n)))"
    and "\<forall>(fn, rows) \<in> set (uniqueSections (report_of sortSlice ff fns tot ps n)).
           sorted (map row_triple rows)"
    and "sorted (map row_triple (partialRows (report_of sortSlice ff fns tot ps n)))"
    and "sorted (map fst (fileSummary (report_of sortSlice ff fns tot ps n)))"
    and "sorted (map fst (uniqueSections (report_of sortSlice ff fns tot ps n)))"
proof -
  note s = sorter_props(2) [OF ss]
  show "sorted (map row_triple (commonRows (report_of sortSlice ff fns tot ps n)))"
    by (simp add: report_of_def row_triple_rows s)
  show "sorted (map row_triple (partialRows (report_of sortSlice ff fns tot ps n)))"
    by (simp add: report_of_def row_triple_rows s)
  show "\<forall>(fn, rows) \<in> set (uniqueSections (report_of sortSlice ff fns tot ps n)).
           sorted (map row_triple rows)"
    by (auto simp: report_of_def row_triple_rows s split: if_splits)
  show "sorted (map fst (fileSummary (report_of sortSlice ff fns tot ps n)))"
    using fs by (simp add: report_of_def o_def)
  have "map fst (concat (map (\<lambda>fn. if Q fn then [(fn, h fn)] else []) xs)) = filter Q xs"
    for Q :: "string \<Rightarrow> bool" and h :: "string \<Rightarrow> (string \<times> byte \<times> string \<times> nat) list" and xs
    by (induction xs) simp_all
  then have "map fst (uniqueSections (report_of sortSlice ff fns tot ps n))
      = filter (\<lambda>fn. length (filter (unique_in n fn) ps) > 0) fns"
    by (simp add: report_of_def)
  with fs show "sorted (map fst (uniqueSections (report_of sortSlice ff fns tot ps n)))"
    by (simp add: sorted_filter [where f = "\<lambda>x. x", simplified])
qed

text \<open>
  Claim C8. For every finite map of sources, two runs of the comparison print the same
  report, whatever the orders in which their \<open>range\<close> loops visit the sources, the
  patterns and the other maps, and whichever \<open>sort.Slice\<close> meeting the contract they use.
  In the report the common rows, the rows of each per-source unique list and the partial
  rows are in ascending order of (identifier, header, data text), and the files are in
  ascending order of their names.
\<close>

theorem report_independent_of_order:
  assumes fin: "finite (dom fileFrames)"
    and ro: "range_ok ro" and ro': "range_ok ro'"
    and ss: "slice_sorter sortSlice patternLess" and ss': "slice_sorter sortSlice' patternLess"
  shows "CompareUnaccountedFrames ro sortSlice fileFrames
           = CompareUnaccountedFrames ro' sortSlice' fileFrames
     \<and> sorted (map row_triple (commonRows (CompareUnaccountedFrames ro sortSlice fileFrames)))
     \<and> (\<forall>(fn, rows) \<in> set (uniqueSections (CompareUnaccountedFrames ro sortSlice fileFrames)).
           sorted (map row_triple rows))
     \<and> sorted (map row_triple (partialRows (CompareUnaccountedFrames ro sortSlice fileFrames)))
     \<and> sorted (map fst (fileSummary (CompareUnaccountedFrames ro sortSlice fileFrames)))
     \<and> sorted (map fst (uniqueSections (CompareUnaccountedFrames ro sortSlice fileFrames)))"
proof -
  define m where "m = collect_patterns ro fileFrames"
  define fns where "fns = sort (ro 1 (dom fileFrames))"
  have m': "collect_patterns ro' fileFrames = m"
    unfolding m_def by (rule collect_patterns_order [OF ro' ro fin])
  have fns': "sort (ro' 1 (dom fileFrames)) = fns"
    unfolding fns_def by (simp only: filenames_sorted_list [OF ro fin] filenames_sorted_list [OF ro' fin])
  have fm: "finite (dom m)" unfolding m_def by (rule finite_dom_collect_patterns [OF ro fin])
  have km: "keyed m" unfolding m_def by (rule keyed_collect_patterns)
  have r: "CompareUnaccountedFrames ro sortSlice fileFrames
      = report_of sortSlice fileFrames fns (card (dom m)) (pattern_list ro m) (length fns)"
    unfolding m_def fns_def by (rule Compare_report_of [OF ro])
  have r': "CompareUnaccountedFrames ro' sortSlice' fileFrames
      = report_of sortSlice' fileFrames fns (card (dom m)) (pattern_list ro' m) (length fns)"
    using Compare_report_of [OF ro', of sortSlice' fileFrames] unfolding m' fns' .
  have eq: "CompareUnaccountedFrames ro sortSlice fileFrames
           = CompareUnaccountedFrames ro' sortSlice' fileFrames"
    unfolding r r'
    by (rule report_of_order [OF mset_pattern_list [OF ro ro' fm]
          distinct_pattern_list [OF ro' fm km] ss ss'])
  have sf: "sorted fns" unfolding fns_def by simp
  from eq report_of_sorted [OF ss sf, of fileFrames "card (dom m)" "pattern_list ro m" "length fns"]
  show ?thesis unfolding r by blast
qed

lemma range_ok_rev_range: "range_ok rev_range"
  by (simp add: range_ok_def rev_range_def)

lemma insertionSort_patternLess: "slice_sorter insertionSort patternLess"
  by (rule insertionSort_slice_sorter)

text \<open>
  Claim C7 at three files: the shape \<open>(100, 50, 50)\<close> occurs in \<open>A.csv\<close> and \<open>B.csv\<close>, the
  shape \<open>(200, 51, 5101)\<close> in \<open>A.csv\<close> only, and \<open>C.csv\<close> holds one heartbeat.
\<close>

theorem categories_partition_witness:
  "finite (dom sample_files) \<and> 2 \<le> card (dom sample_files) \<and> range_ok sorted_range
   \<and> commonCount (CompareUnaccountedFrames sorted_range insertionSort sample_files)
       + uniqueCount (CompareUnaccountedFrames sorted_range insertionSort sample_files)
       + partialCount (CompareUnaccountedFrames sorted_range insertionSort sample_files)
       = totalPatterns (CompareUnaccountedFrames sorted_range insertionSort sample_files)
   \<and> totalPatterns (CompareUnaccountedFrames sorted_range insertionSort sample_files) = 2
   \<and> uniqueCount (CompareUnaccountedFrames sorted_range insertionSort sample_files) = 1
   \<and> partialCount (CompareUnaccountedFrames sorted_range insertionSort sample_files) = 1"
proof -
  have f: "finite (dom sample_files)" by (simp add: dom_sample)
  have t: "2 \<le> card (dom sample_files)" by (simp add: dom_sample)
  note c = categories_partition [OF f t range_ok_sorted_range, of insertionSort, unfolded Let_def]
  from c have "commonCount (CompareUnaccountedFrames sorted_range insertionSort sample_files)
       + uniqueCount (CompareUnaccountedFrames sorted_range insertionSort sample_files)
       + partialCount (CompareUnaccountedFrames sorted_range insertionSort sample_files)
       = totalPatterns (CompareUnaccountedFrames sorted_range insertionSort sample_files)"
    by blast
  moreover have "totalPatterns (CompareUnaccountedFrames sorted_range insertionSort sample_files) = 2"
    "uniqueCount (CompareUnaccountedFrames sorted_range insertionSort sample_files) = 1"
    "partialCount (CompareUnaccountedFrames sorted_range insertionSort sample_files) = 1"
    by (simp_all add: sample_report)
  ultimately show ?thesis using f t range_ok_sorted_range by blast
qed

text \<open>
  Claim C8 at the same three files, visited in descending instead of ascending order: the
  report is the one computed for the ascending order.
\<close>

theorem report_independent_of_order_witness:
  "finite (dom sample_files) \<and> range_ok sorted_range \<and> range_ok rev_range
   \<and> slice_sorter insertionSort patternLess
   \<and> CompareUnaccountedFrames rev_range insertionSort sample_files =
     \<lparr>fileSummary = [(''A.csv'', 2, 2), (''B.csv'', 2, 2), (''C.csv'', 0, 1)],
      commonRows = [],
      uniqueSections = [(''A.csv'', [(''200'', 0x51, ''5101'', 1)])],
      partialRows = [(''100'', 0x50, ''50'', [(1, 1), (2, 2)])],
      totalPatterns = 2, commonCount = 0, uniqueCount = 1, partialCount = 1\<rparr>"
proof -
  have f: "finite (dom sample_files)" by (simp add: dom_sample)
  from report_independent_of_order [OF f range_ok_sorted_range range_ok_rev_range
      insertionSort_patternLess insertionSort_patternLess]
  have "CompareUnaccountedFrames rev_range insertionSort sample_files
      = CompareUnaccountedFrames sorted_range insertionSort sample_files"
    by simp
  with f range_ok_sorted_range range_ok_rev_range insertionSort_patternLess
  show ?thesis by (simp only: sample_report simp_thms)
qed

end
